theory Spec2Isabelle
  imports Complex_Main
begin

section \<open>Data model of the path separator\<close>

text \<open>
  The development embeds \<^verbatim>\<open>HighsPathSeparator::separateLpSolution\<close>
  (file \<^verbatim>\<open>src/mip/HighsPathSeparator.cpp\<close>).  A C++ \<^verbatim>\<open>double\<close> that is finite is a
  rational number and its arithmetic is exact; rounding is not modelled, and the general
  statements below do not rest on a sum of products cancelling to zero, which rounding
  can prevent.  The
  only doubles the function compares with \<^verbatim>\<open>kHighsInf\<close> are the row bounds, so
  bounds and the slacks computed from them range over \<open>bnd\<close>; every other input
  (coefficients, row activities, duals, bound distances, the feasibility tolerance) is
  finite.  The two quotients the function computes are not finite when the divisor is
  zero; what the source does with them is described where they occur.  A
  \<^verbatim>\<open>HighsInt\<close> that is an index is a natural number, and the sentinel \<open>-1\<close> of the
  source ("no row", "no column") is \<open>None\<close>.  The vectors of the relaxation are lists
  that the model reads with \<open>!\<close> at the indices the source uses; \<^verbatim>\<open>HighsLp\<close> keeps
  these within range (row indices below \<open>num_row\<close>, continuous columns below \<open>num_col\<close>,
  \<open>a_start\<close> increasing).  An access that the separator itself can make outside a vector
  is a fault of the model.
\<close>

datatype RowType = kUnusuable | kGeq | kEq | kLeq

datatype bnd = MinusInf | Finite rat | PlusInf

datatype HighsVarType = kContinuous | kInteger

text \<open>Comparison \<^verbatim>\<open><\<close> of doubles that may be infinite.\<close>

fun bless :: "bnd \<Rightarrow> bnd \<Rightarrow> bool" where
  "bless MinusInf MinusInf = False"
| "bless MinusInf _ = True"
| "bless (Finite x) (Finite y) = (x < y)"
| "bless (Finite x) PlusInf = True"
| "bless (Finite x) MinusInf = False"
| "bless PlusInf _ = False"

text \<open>\<open>v - b\<close> and \<open>b - v\<close> for a finite double \<open>v\<close> and a possibly infinite \<open>b\<close>.\<close>

fun fin_minus :: "rat \<Rightarrow> bnd \<Rightarrow> bnd" where
  "fin_minus v MinusInf = PlusInf"
| "fin_minus v (Finite l) = Finite (v - l)"
| "fin_minus v PlusInf = MinusInf"

fun minus_fin :: "bnd \<Rightarrow> rat \<Rightarrow> bnd" where
  "minus_fin MinusInf v = MinusInf"
| "minus_fin (Finite u) v = Finite (u - v)"
| "minus_fin PlusInf v = PlusInf"

text \<open>The fields of \<^verbatim>\<open>HighsLp\<close> that the separator reads: the column-wise matrix
  (\<^verbatim>\<open>a_start_\<close>, \<^verbatim>\<open>a_index_\<close>, \<^verbatim>\<open>a_value_\<close>) and the row bounds.\<close>

record HighsLp =
  num_col :: nat
  num_row :: nat
  a_start :: "nat list"
  a_index :: "nat list"
  a_value :: "rat list"
  row_lower :: "bnd list"
  row_upper :: "bnd list"

text \<open>
  Everything else the function reads from its collaborators.  The classes behind these
  fields (\<^verbatim>\<open>HighsLpRelaxation\<close>, \<^verbatim>\<open>HighsTransformedLp\<close>, \<^verbatim>\<open>HighsCutGeneration\<close>,
  \<^verbatim>\<open>HighsRandom\<close>, \<^verbatim>\<open>HighsMipSolverData\<close>) are not part of the sources at hand, so
  their member functions are parameters: \<open>generateCut\<close> maps the state \<open>'cg\<close> of the cut
  generator and cut pool, an aggregated row and a right-hand side to the success flag and
  the new state; \<open>initialise\<close> and \<open>bit\<close> are the two operations of the random generator
  with state \<open>'rng\<close>; \<open>complemented\<close> is the change of coordinates that
  \<^verbatim>\<open>getCurrentAggregation\<close> applies when its last argument is \<^verbatim>\<open>true\<close>.
\<close>

record ('cg, 'rng) relaxation =
  lp :: HighsLp
  row_value :: "rat list"
  row_dual :: "rat list"
  feastol :: rat
  continuous_cols :: "nat list"
  variableType :: "nat \<Rightarrow> HighsVarType"
  boundDistance :: "nat \<Rightarrow> rat"
  getRow :: "nat \<Rightarrow> (nat \<times> rat) list"
  isColIntegral :: "nat \<Rightarrow> bool"
  random_seed :: int
  numLpIterations :: int
  generateCut :: "'cg \<Rightarrow> (nat \<times> rat) list \<Rightarrow> rat \<Rightarrow> bool \<times> 'cg"
  complemented :: "(nat \<times> rat) list \<Rightarrow> (nat \<times> rat) list"
  initialise :: "int \<Rightarrow> 'rng"
  bit :: "'rng \<Rightarrow> bool \<times> 'rng"

section \<open>Row classification\<close>

text \<open>The body of the first loop (lines 43--65) for one row.\<close>

definition classifyRow :: "rat \<Rightarrow> bnd \<Rightarrow> bnd \<Rightarrow> rat \<Rightarrow> RowType" where
  "classifyRow tol lower upper val =
     (if lower = upper then kEq
      else
        let lowerslack = (if lower \<noteq> MinusInf then fin_minus val lower else PlusInf);
            upperslack = (if upper \<noteq> PlusInf then minus_fin upper val else PlusInf)
        in if bless (Finite tol) lowerslack \<and> bless (Finite tol) upperslack then kUnusuable
           else if bless lowerslack upperslack then kGeq
           else kLeq)"

text \<open>The loop itself: \<open>rowtype\<close> has been resized to \<open>num_row\<close> entries and entry \<open>i\<close>
  is assigned in round \<open>i\<close>.\<close>

fun classifyLoop :: "('cg, 'rng) relaxation \<Rightarrow> nat list \<Rightarrow> RowType list \<Rightarrow> RowType list" where
  "classifyLoop E [] rowtype = rowtype"
| "classifyLoop E (i # is) rowtype =
     classifyLoop E is
       (rowtype[i := classifyRow (feastol E) (row_lower (lp E) ! i) (row_upper (lp E) ! i)
                       (row_value E ! i)])"

definition classifyRows :: "('cg, 'rng) relaxation \<Rightarrow> RowType list" where
  "classifyRows E = classifyLoop E [0 ..< num_row (lp E)] (replicate (num_row (lp E)) kEq)"

text \<open>The classification as the specification words it (section 4.1, step 1): equal
  bounds give \<open>Equality\<close>; otherwise a slack is infinite when its bound is infinite and
  the distance of the activity from the bound when the bound is finite; the row is
  \<open>Unusable\<close> when both slacks exceed the tolerance, \<open>GreaterOrEqual\<close> when the lower
  slack is the smaller one and \<open>LessOrEqual\<close> otherwise.\<close>

definition lowerSlackSpec :: "bnd \<Rightarrow> rat \<Rightarrow> bnd" where
  "lowerSlackSpec lower val = (case lower of Finite l \<Rightarrow> Finite (val - l) | _ \<Rightarrow> PlusInf)"

definition upperSlackSpec :: "bnd \<Rightarrow> rat \<Rightarrow> bnd" where
  "upperSlackSpec upper val = (case upper of Finite u \<Rightarrow> Finite (u - val) | _ \<Rightarrow> PlusInf)"

definition rowKindSpec :: "rat \<Rightarrow> bnd \<Rightarrow> bnd \<Rightarrow> rat \<Rightarrow> RowType" where
  "rowKindSpec tol lower upper val =
     (if lower = upper then kEq
      else if bless (Finite tol) (lowerSlackSpec lower val)
              \<and> bless (Finite tol) (upperSlackSpec upper val) then kUnusuable
      else if bless (lowerSlackSpec lower val) (upperSlackSpec upper val) then kGeq
      else kLeq)"

text \<open>A lower bound is never \<open>+\<infinity>\<close> and an upper bound never \<open>-\<infinity>\<close> in a relaxation
  that HiGHS has accepted.\<close>

definition boundsOk :: "('cg, 'rng) relaxation \<Rightarrow> bool" where
  "boundsOk E =
     list_all (\<lambda>i. row_lower (lp E) ! i \<noteq> PlusInf \<and> row_upper (lp E) ! i \<noteq> MinusInf)
       [0 ..< num_row (lp E)]"

section \<open>Counting the eligible continuous columns of every row\<close>

text \<open>Positions \<open>a_start[col] .. a_start[col + 1] - 1\<close> of a column in the column-wise
  matrix, and the entries stored there.\<close>

definition colRange :: "HighsLp \<Rightarrow> nat \<Rightarrow> nat list" where
  "colRange L col = [a_start L ! col ..< a_start L ! (col + 1)]"

definition colEntries :: "HighsLp \<Rightarrow> nat \<Rightarrow> (nat \<times> rat) list" where
  "colEntries L col = map (\<lambda>i. (a_index L ! i, a_value L ! i)) (colRange L col)"

text \<open>Lines 70--76.  \<^verbatim>\<open>maxAggrRowSize\<close> only sizes a \<^verbatim>\<open>reserve\<close> call and is left out.\<close>

fun countLoop :: "HighsLp \<Rightarrow> nat list \<Rightarrow> nat list \<Rightarrow> nat list" where
  "countLoop L [] numContinuous = numContinuous"
| "countLoop L (i # is) numContinuous =
     countLoop L is (numContinuous[a_index L ! i := numContinuous ! (a_index L ! i) + 1])"

fun numContinuousLoop :: "('cg, 'rng) relaxation \<Rightarrow> nat list \<Rightarrow> nat list \<Rightarrow> nat list" where
  "numContinuousLoop E [] numContinuous = numContinuous"
| "numContinuousLoop E (col # cols) numContinuous =
     (if boundDistance E col = 0 then numContinuousLoop E cols numContinuous
      else numContinuousLoop E cols (countLoop (lp E) (colRange (lp E) col) numContinuous))"

definition numContinuousOf :: "('cg, 'rng) relaxation \<Rightarrow> nat list" where
  "numContinuousOf E =
     numContinuousLoop E (continuous_cols E) (replicate (num_row (lp E)) 0)"

section \<open>Substitution detection\<close>

datatype fault = OutOfBounds

text \<open>The search of lines 94--99 for the first continuous entry of a row with nonzero
  bound distance; \<open>None\<close> when \<open>j\<close> reaches \<open>len\<close>.\<close>

fun findContinuous :: "('cg, 'rng) relaxation \<Rightarrow> (nat \<times> rat) list \<Rightarrow> (nat \<times> rat) option" where
  "findContinuous E [] = None"
| "findContinuous E ((c, v) # rest) =
     (if variableType E c \<noteq> kContinuous then findContinuous E rest
      else if boundDistance E c = 0 then findContinuous E rest
      else Some (c, v))"

text \<open>
  Lines 85--113.  \<open>colSubstitutions\<close> holds \<open>Some (row, val)\<close> where the source holds a
  pair whose first component is not \<open>-1\<close>.  When the search runs off the row the source
  reads \<^verbatim>\<open>rowinds[len]\<close>, and a column index beyond \<open>num_col\<close> indexes
  \<open>colSubstitutions\<close> out of range: both are the fault \<open>OutOfBounds\<close>.
\<close>

fun substitutionLoop ::
  "('cg, 'rng) relaxation \<Rightarrow> nat list \<Rightarrow> nat list \<Rightarrow>
   (nat \<times> rat) option list \<times> RowType list \<Rightarrow>
   fault + ((nat \<times> rat) option list \<times> RowType list)" where
  "substitutionLoop E numContinuous [] (colSubstitutions, rowtype) =
     Inr (colSubstitutions, rowtype)"
| "substitutionLoop E numContinuous (i # is) (colSubstitutions, rowtype) =
     (if rowtype ! i = kEq \<and> numContinuous ! i = 1 then
        (case findContinuous E (getRow E i) of
           None \<Rightarrow> Inl OutOfBounds
         | Some (col, val) \<Rightarrow>
             if col \<ge> num_col (lp E) then Inl OutOfBounds
             else if colSubstitutions ! col \<noteq> None then
               substitutionLoop E numContinuous is (colSubstitutions, rowtype)
             else
               substitutionLoop E numContinuous is
                 (colSubstitutions[col := Some (i, val)], rowtype[i := kUnusuable]))
      else substitutionLoop E numContinuous is (colSubstitutions, rowtype))"

definition detectSubstitutions ::
  "('cg, 'rng) relaxation \<Rightarrow> fault + ((nat \<times> rat) option list \<times> RowType list)" where
  "detectSubstitutions E =
     substitutionLoop E (numContinuousOf E) [0 ..< num_row (lp E)]
       (replicate (num_col (lp E)) None, classifyRows E)"

text \<open>The rows that qualify as substitution source of a column, in the words of the
  specification: equality rows in which the column is the only continuous entry with
  nonzero bound distance.\<close>

definition eligibleEntry :: "('cg, 'rng) relaxation \<Rightarrow> nat \<times> rat \<Rightarrow> bool" where
  "eligibleEntry E e = (variableType E (fst e) = kContinuous \<and> boundDistance E (fst e) \<noteq> 0)"

definition qualifies :: "('cg, 'rng) relaxation \<Rightarrow> nat \<Rightarrow> nat \<Rightarrow> bool" where
  "qualifies E col i =
     (classifyRows E ! i = kEq \<and> map fst (filter (eligibleEntry E) (getRow E i)) = [col])"

definition pivotOf :: "('cg, 'rng) relaxation \<Rightarrow> nat \<Rightarrow> rat" where
  "pivotOf E i = snd (hd (filter (eligibleEntry E) (getRow E i)))"

text \<open>The first qualifying row among \<open>rows\<close>, with the coefficient of the column in it.\<close>

definition firstQualifying ::
  "('cg, 'rng) relaxation \<Rightarrow> nat \<Rightarrow> nat list \<Rightarrow> (nat \<times> rat) option" where
  "firstQualifying E col rows =
     (case filter (qualifies E col) rows of
        [] \<Rightarrow> None
      | i # _ \<Rightarrow> Some (i, pivotOf E i))"

definition substitutionSpec :: "('cg, 'rng) relaxation \<Rightarrow> nat \<Rightarrow> (nat \<times> rat) option" where
  "substitutionSpec E col = firstQualifying E col [0 ..< num_row (lp E)]"

text \<open>
  What the separator relies on in its collaborators, stated on its inputs.
  \<open>continuous_cols\<close> lists every continuous column once and nothing else.  \<open>getRow\<close>
  is the row-wise view of the column-wise matrix: a row holds entries of columns below
  \<open>num_col\<close>, and the coefficients that row \<open>i\<close> has in column \<open>c\<close> are those that
  column \<open>c\<close> stores for row \<open>i\<close>, in the same order.
\<close>

definition consistent :: "('cg, 'rng) relaxation \<Rightarrow> bool" where
  "consistent E =
     (distinct (continuous_cols E)
      \<and> list_all (\<lambda>c. c < num_col (lp E)) (continuous_cols E)
      \<and> list_all (\<lambda>c. (c \<in> set (continuous_cols E)) = (variableType E c = kContinuous))
          [0 ..< num_col (lp E)]
      \<and> list_all
          (\<lambda>i. list_all (\<lambda>e. fst e < num_col (lp E)) (getRow E i)
               \<and> list_all
                   (\<lambda>c. map snd (filter (\<lambda>e. fst e = i) (colEntries (lp E) c)) =
                        map snd (filter (\<lambda>e. fst e = c) (getRow E i)))
                   [0 ..< num_col (lp E)])
          [0 ..< num_row (lp E)])"

section \<open>Adjacency construction\<close>

record arcs =
  inArcRows :: "(nat \<times> rat) list"
  colInArcs :: "(nat \<times> nat) list"
  outArcRows :: "(nat \<times> rat) list"
  colOutArcs :: "(nat \<times> nat) list"

text \<open>The inner loop of lines 140--158 over the positions of one column.\<close>

fun arcEntryLoop ::
  "HighsLp \<Rightarrow> RowType list \<Rightarrow> nat list \<Rightarrow> (nat \<times> rat) list \<times> (nat \<times> rat) list \<Rightarrow>
   (nat \<times> rat) list \<times> (nat \<times> rat) list" where
  "arcEntryLoop L rowtype [] (ins, outs) = (ins, outs)"
| "arcEntryLoop L rowtype (i # is) (ins, outs) =
     (case rowtype ! (a_index L ! i) of
        kUnusuable \<Rightarrow> arcEntryLoop L rowtype is (ins, outs)
      | kLeq \<Rightarrow>
          if a_value L ! i < 0
          then arcEntryLoop L rowtype is (ins @ [(a_index L ! i, a_value L ! i)], outs)
          else arcEntryLoop L rowtype is (ins, outs @ [(a_index L ! i, a_value L ! i)])
      | kGeq \<Rightarrow>
          if a_value L ! i > 0
          then arcEntryLoop L rowtype is (ins @ [(a_index L ! i, a_value L ! i)], outs)
          else arcEntryLoop L rowtype is (ins, outs @ [(a_index L ! i, a_value L ! i)])
      | kEq \<Rightarrow>
          if a_value L ! i > 0
          then arcEntryLoop L rowtype is (ins @ [(a_index L ! i, a_value L ! i)], outs)
          else arcEntryLoop L rowtype is (ins, outs @ [(a_index L ! i, a_value L ! i)]))"

text \<open>The loop of lines 134--162 over the continuous columns.\<close>

fun arcLoop ::
  "('cg, 'rng) relaxation \<Rightarrow> (nat \<times> rat) option list \<Rightarrow> RowType list \<Rightarrow> nat list \<Rightarrow>
   arcs \<Rightarrow> arcs" where
  "arcLoop E colSubstitutions rowtype [] A = A"
| "arcLoop E colSubstitutions rowtype (col # cols) A =
     (if boundDistance E col = 0 then arcLoop E colSubstitutions rowtype cols A
      else if colSubstitutions ! col \<noteq> None then arcLoop E colSubstitutions rowtype cols A
      else
        let inFirst = length (inArcRows A);
            outFirst = length (outArcRows A);
            io = arcEntryLoop (lp E) rowtype (colRange (lp E) col) (inArcRows A, outArcRows A)
        in arcLoop E colSubstitutions rowtype cols
             \<lparr>inArcRows = fst io,
              colInArcs = (colInArcs A)[col := (inFirst, length (fst io))],
              outArcRows = snd io,
              colOutArcs = (colOutArcs A)[col := (outFirst, length (snd io))]\<rparr>)"

definition buildArcs ::
  "('cg, 'rng) relaxation \<Rightarrow> (nat \<times> rat) option list \<Rightarrow> RowType list \<Rightarrow> arcs" where
  "buildArcs E colSubstitutions rowtype =
     arcLoop E colSubstitutions rowtype (continuous_cols E)
       \<lparr>inArcRows = [], colInArcs = replicate (num_col (lp E)) (0, 0),
        outArcRows = [], colOutArcs = replicate (num_col (lp E)) (0, 0)\<rparr>"

text \<open>The entries \<open>tbl[first] .. tbl[second - 1]\<close> of a global arc table.\<close>

definition arcRange :: "'a list \<Rightarrow> nat \<times> nat \<Rightarrow> 'a list" where
  "arcRange tbl r = map ((!) tbl) [fst r ..< snd r]"

definition inArcsOf :: "arcs \<Rightarrow> nat \<Rightarrow> (nat \<times> rat) list" where
  "inArcsOf A col = arcRange (inArcRows A) (colInArcs A ! col)"

definition outArcsOf :: "arcs \<Rightarrow> nat \<Rightarrow> (nat \<times> rat) list" where
  "outArcsOf A col = arcRange (outArcRows A) (colOutArcs A ! col)"

section \<open>The row aggregator\<close>

text \<open>
  Modelled from the spec: the class \<^verbatim>\<open>HighsLpAggregator\<close> is not among the sources.
  Section 4.3 of the specification gives its contract: the aggregated row is a sparse
  vector over columns, \<open>addRow\<close> folds \<open>weight \<times> row\<close> into it, \<open>getCurrentAggregation\<close>
  returns its nonzero entries as they are or in complemented form, \<open>clear\<close> empties it.
  The vector is kept as an association list in the order in which columns were first
  touched.
\<close>

type_synonym aggregation = "(nat \<times> rat) list"

fun addEntry :: "nat \<Rightarrow> rat \<Rightarrow> aggregation \<Rightarrow> aggregation" where
  "addEntry c x [] = [(c, x)]"
| "addEntry c x ((c', y) # rest) =
     (if c' = c then (c', y + x) # rest else (c', y) # addEntry c x rest)"

fun addEntries :: "rat \<Rightarrow> (nat \<times> rat) list \<Rightarrow> aggregation \<Rightarrow> aggregation" where
  "addEntries w [] ag = ag"
| "addEntries w ((c, v) # rest) ag = addEntries w rest (addEntry c (w * v) ag)"

definition addRow :: "('cg, 'rng) relaxation \<Rightarrow> nat \<Rightarrow> rat \<Rightarrow> aggregation \<Rightarrow> aggregation" where
  "addRow E r w ag = addEntries w (getRow E r) ag"

definition getCurrentAggregation ::
  "('cg, 'rng) relaxation \<Rightarrow> aggregation \<Rightarrow> bool \<Rightarrow> (nat \<times> rat) list" where
  "getCurrentAggregation E ag negate =
     (let nonzeros = filter (\<lambda>e. snd e \<noteq> 0) ag
      in if negate then complemented E nonzeros else nonzeros)"

definition clear :: aggregation where
  "clear = []"

section \<open>The path loop of one seed row\<close>

text \<open>
  The effects of the loop are recorded as events: the three call sites of \<open>addRow\<close>
  (seed row, substitution row, extension row, each with its weight), every call of
  \<open>generateCut\<close> (on the complemented row or not, and its result) and every call of
  \<open>randgen.bit()\<close>.
\<close>

datatype event =
    Seeded nat rat
  | Substituted nat rat
  | Extended nat rat
  | CutAttempt bool bool
  | CoinFlip bool

record ('cg, 'rng) pstate =
  lpAggregator :: aggregation
  cutGen :: 'cg
  randgen :: 'rng
  currPathLen :: nat
  trace :: "event list"

definition maxPathLen :: nat where
  "maxPathLen = 6"

text \<open>Division of finite doubles: \<open>None\<close> when the divisor is zero and the quotient is
  an infinity or NaN.\<close>

definition ddiv :: "rat \<Rightarrow> rat \<Rightarrow> rat option" where
  "ddiv x y = (if y = 0 then None else Some (x / y))"

text \<open>Lines 181--187, for a positive tolerance (the source computes \<open>maxWeight\<close> as
  \<open>1. / feastol\<close>).\<close>

definition checkWeight :: "rat \<Rightarrow> rat \<Rightarrow> bool" where
  "checkWeight tol w =
     (let maxWeight = 1 / tol; minWeight = tol; w' = \<bar>w\<bar>
      in w' \<le> maxWeight \<and> w' \<ge> minWeight)"

text \<open>
  The scan of the aggregated row (lines 202--234).  A candidate is the triple of the
  source's variables, \<open>(bestOutArcCol, outArcColVal, outArcColBoundDist)\<close>, and \<open>None\<close>
  while \<open>bestOutArcCol\<close> is \<open>-1\<close>.

  The weight of a substitution row is the quotient \<open>- val / pivot\<close>.  With a pivot that
  is zero the quotient is an infinity (\<open>val\<close> is a nonzero entry of the aggregated row):
  line 210 folds the substitution row with that weight, which adds \<open>\<infinity> \<times> 0\<close>, a NaN, to
  the entry of the column itself, and line 236 goes on with the next round.  The entry
  stays NaN whatever is added to it, and a NaN is not zero, so by the contract of the
  aggregator (the nonzero entries are read back) the column is in the row of every later
  round and is substituted again.  The scan reports such a round as \<open>NonFiniteWeight\<close>;
  the path loop below does not finish on it.
\<close>

datatype nonfinite = NonFiniteWeight

record scan =
  addedSubstitutionRows :: bool
  bestOutArc :: "(nat \<times> rat \<times> rat) option"
  bestInArc :: "(nat \<times> rat \<times> rat) option"
  aggr :: aggregation
  subst_log :: "event list"

definition betterCand :: "(nat \<times> rat \<times> rat) option \<Rightarrow> rat \<Rightarrow> bool" where
  "betterCand best bd = (case best of None \<Rightarrow> True | Some (c, v, d) \<Rightarrow> bd > d)"

fun scanBaseRow ::
  "('cg, 'rng) relaxation \<Rightarrow> (nat \<times> rat) option list \<Rightarrow> arcs \<Rightarrow> (nat \<times> rat) list \<Rightarrow>
   scan \<Rightarrow> nonfinite + scan" where
  "scanBaseRow E colSubstitutions A [] s = Inr s"
| "scanBaseRow E colSubstitutions A ((col, val) # rest) s =
     (if col \<ge> num_col (lp E) \<or> boundDistance E col = 0 \<or> isColIntegral E col
      then scanBaseRow E colSubstitutions A rest s
      else
        case colSubstitutions ! col of
          Some (r, pivot) \<Rightarrow>
            (case ddiv (- val) pivot of
               None \<Rightarrow> Inl NonFiniteWeight
             | Some w \<Rightarrow>
                 scanBaseRow E colSubstitutions A rest
                   (s\<lparr>addedSubstitutionRows := True,
                      aggr := addRow E r w (aggr s),
                      subst_log := subst_log s @ [Substituted r w]\<rparr>))
        | None \<Rightarrow>
            if addedSubstitutionRows s then scanBaseRow E colSubstitutions A rest s
            else if val < 0 then
              (if fst (colInArcs A ! col) = snd (colInArcs A ! col)
               then scanBaseRow E colSubstitutions A rest s
               else if betterCand (bestOutArc s) (boundDistance E col)
               then scanBaseRow E colSubstitutions A rest
                      (s\<lparr>bestOutArc := Some (col, val, boundDistance E col)\<rparr>)
               else scanBaseRow E colSubstitutions A rest s)
            else
              (if fst (colOutArcs A ! col) = snd (colOutArcs A ! col)
               then scanBaseRow E colSubstitutions A rest s
               else if betterCand (bestInArc s) (boundDistance E col)
               then scanBaseRow E colSubstitutions A rest
                      (s\<lparr>bestInArc := Some (col, val, boundDistance E col)\<rparr>)
               else scanBaseRow E colSubstitutions A rest s))"

text \<open>
  The scan of an arc list for the best row (lines 261--275 and 286--300, which differ
  only in the list and the coefficient).  \<open>randgen.bit()\<close> is called only when the first
  two disjuncts of the test fail and the score is within the tolerance.  A weight that is
  not finite fails \<^verbatim>\<open>checkWeight\<close>, so its row is skipped like one outside the band.
\<close>

record 'rng pick =
  row :: "nat option"
  weight :: rat
  score :: rat
  gen :: 'rng
  flips :: "event list"

fun scanArcRows ::
  "('cg, 'rng) relaxation \<Rightarrow> rat \<Rightarrow> (nat \<times> rat) list \<Rightarrow> 'rng pick \<Rightarrow> 'rng pick" where
  "scanArcRows E colVal [] p = p"
| "scanArcRows E colVal ((thisRow, a) # rest) p =
     (case ddiv (- colVal) a of
        None \<Rightarrow> scanArcRows E colVal rest p
      | Some thisWeight \<Rightarrow>
          if \<not> checkWeight (feastol E) thisWeight then scanArcRows E colVal rest p
          else
            let thisScore = \<bar>thisWeight * row_dual E ! thisRow\<bar> in
            if row p = None \<or> thisScore > score p + feastol E
            then scanArcRows E colVal rest
                   (p\<lparr>row := Some thisRow, score := thisScore, weight := thisWeight\<rparr>)
            else if thisScore \<ge> score p - feastol E
            then
              (let (b, g) = bit E (gen p) in
               if b
               then scanArcRows E colVal rest
                      (p\<lparr>row := Some thisRow, score := thisScore, weight := thisWeight,
                         gen := g, flips := flips p @ [CoinFlip b]\<rparr>)
               else scanArcRows E colVal rest (p\<lparr>gen := g, flips := flips p @ [CoinFlip b]\<rparr>))
            else scanArcRows E colVal rest p)"

definition startPick :: "'rng \<Rightarrow> 'rng pick" where
  "startPick g = \<lparr>row = None, weight = 0, score = 0, gen = g, flips = []\<rparr>"

text \<open>The ways in which a round of the path loop ends: the loop goes on, the loop is
  left, an access outside a vector, or a substitution with pivot zero.\<close>

datatype 'a ctl = Continue 'a | Break 'a | Fault fault 'a | Spin 'a

text \<open>
  The block at the label \<^verbatim>\<open>check_out_arc_col\<close> (lines 281--304): the out-arc list of
  the in-arc candidate is scanned.  With \<open>bestInArcCol = -1\<close> the source evaluates
  \<^verbatim>\<open>colOutArcs[-1]\<close>, an access outside the vector.
\<close>

definition checkOutArcCol ::
  "('cg, 'rng) relaxation \<Rightarrow> arcs \<Rightarrow> ('cg, 'rng) pstate \<Rightarrow> (nat \<times> rat \<times> rat) option \<Rightarrow>
   ('cg, 'rng) pstate ctl" where
  "checkOutArcCol E A st bestIn =
     (case bestIn of
        None \<Rightarrow> Fault OutOfBounds st
      | Some (bestInArcCol, inArcColVal, inArcColBoundDist) \<Rightarrow>
          let p = scanArcRows E inArcColVal (outArcsOf A bestInArcCol) (startPick (randgen st))
          in (case row p of
                None \<Rightarrow> Break (st\<lparr>randgen := gen p, trace := trace st @ flips p\<rparr>)
              | Some r \<Rightarrow>
                  Continue (st\<lparr>lpAggregator := addRow E r (weight p) (lpAggregator st),
                               randgen := gen p,
                               trace := trace st @ (flips p @ [Extended r (weight p)])\<rparr>)))"

text \<open>
  The first block (lines 258--279): the in-arc list of the out-arc candidate is scanned,
  and when no row qualifies control jumps to \<^verbatim>\<open>check_out_arc_col\<close>.  With
  \<open>bestOutArcCol = -1\<close> the block would read \<^verbatim>\<open>colInArcs[-1]\<close>.
\<close>

definition checkInArcCol ::
  "('cg, 'rng) relaxation \<Rightarrow> arcs \<Rightarrow> ('cg, 'rng) pstate \<Rightarrow> (nat \<times> rat \<times> rat) option \<Rightarrow>
   (nat \<times> rat \<times> rat) option \<Rightarrow> ('cg, 'rng) pstate ctl" where
  "checkInArcCol E A st bestOut bestIn =
     (case bestOut of
        None \<Rightarrow> Fault OutOfBounds st
      | Some (bestOutArcCol, outArcColVal, outArcColBoundDist) \<Rightarrow>
          let p = scanArcRows E outArcColVal (inArcsOf A bestOutArcCol)
                    (startPick (randgen st))
          in (case row p of
                None \<Rightarrow>
                  checkOutArcCol E A (st\<lparr>randgen := gen p, trace := trace st @ flips p\<rparr>)
                    bestIn
              | Some r \<Rightarrow>
                  Continue (st\<lparr>lpAggregator := addRow E r (weight p) (lpAggregator st),
                               randgen := gen p,
                               trace := trace st @ (flips p @ [Extended r (weight p)])\<rparr>)))"

text \<open>The test of lines 255--257.\<close>

definition preferOutArc ::
  "rat \<Rightarrow> (nat \<times> rat \<times> rat) option \<Rightarrow> (nat \<times> rat \<times> rat) option \<Rightarrow> bool" where
  "preferOutArc tol bestOut bestIn =
     (case bestIn of
        None \<Rightarrow> True
      | Some (bestInArcCol, inArcColVal, inArcColBoundDist) \<Rightarrow>
          (case bestOut of
             None \<Rightarrow> False
           | Some (bestOutArcCol, outArcColVal, outArcColBoundDist) \<Rightarrow>
               outArcColBoundDist \<ge> inArcColBoundDist - tol))"

text \<open>Lines 255--305: the extension of the path by one row.\<close>

definition extendPath ::
  "('cg, 'rng) relaxation \<Rightarrow> arcs \<Rightarrow> ('cg, 'rng) pstate \<Rightarrow> (nat \<times> rat \<times> rat) option \<Rightarrow>
   (nat \<times> rat \<times> rat) option \<Rightarrow> ('cg, 'rng) pstate ctl" where
  "extendPath E A st bestOut bestIn =
     (if preferOutArc (feastol E) bestOut bestIn then checkInArcCol E A st bestOut bestIn
      else checkOutArcCol E A st bestIn)"

text \<open>The two calls of \<open>generateCut\<close> (lines 238--246); the second operand of \<open>||\<close> is
  evaluated only when the first call has failed.\<close>

definition attemptCuts ::
  "('cg, 'rng) relaxation \<Rightarrow> ('cg, 'rng) pstate \<Rightarrow> (nat \<times> rat) list \<Rightarrow>
   bool \<times> ('cg, 'rng) pstate" where
  "attemptCuts E st baseRow =
     (let (success, cg) = generateCut E (cutGen st) baseRow 0;
          complRow = getCurrentAggregation E (lpAggregator st) True
      in if success
         then (True, st\<lparr>cutGen := cg, trace := trace st @ [CutAttempt False True]\<rparr>)
         else
           let (success', cg') = generateCut E cg complRow 0
           in (success',
               st\<lparr>cutGen := cg',
                  trace := trace st @ [CutAttempt False False, CutAttempt True success']\<rparr>))"

text \<open>One round of the \<^verbatim>\<open>while\<close> loop (lines 190--305).\<close>

definition startScan :: "aggregation \<Rightarrow> scan" where
  "startScan ag =
     \<lparr>addedSubstitutionRows = False, bestOutArc = None, bestInArc = None,
      aggr = ag, subst_log = []\<rparr>"

definition loopBody ::
  "('cg, 'rng) relaxation \<Rightarrow> (nat \<times> rat) option list \<Rightarrow> arcs \<Rightarrow> ('cg, 'rng) pstate \<Rightarrow>
   ('cg, 'rng) pstate ctl" where
  "loopBody E colSubstitutions A st =
     (let baseRow = getCurrentAggregation E (lpAggregator st) False
      in case scanBaseRow E colSubstitutions A baseRow (startScan (lpAggregator st)) of
           Inl NonFiniteWeight \<Rightarrow> Spin st
         | Inr s \<Rightarrow>
             let st1 = st\<lparr>lpAggregator := aggr s, trace := trace st @ subst_log s\<rparr>
             in if addedSubstitutionRows s then Continue st1
                else
                  let (success, st2) = attemptCuts E st1 baseRow
                  in if success \<or> (bestOutArc s = None \<and> bestInArc s = None) then Break st2
                     else extendPath E A (st2\<lparr>currPathLen := currPathLen st2 + 1\<rparr>)
                            (bestOutArc s) (bestInArc s))"

text \<open>
  The \<^verbatim>\<open>while (currPathLen != maxPathLen)\<close> loop.  Nothing in its text bounds the number
  of rounds that fold substitution rows, so the model runs on fuel: \<open>None\<close> is a loop that
  has not finished within \<open>fuel\<close> rounds.  A finished loop returns the fault, if any, and
  the state.  After a substitution with pivot zero every later round substitutes the same
  column again, so the loop has not finished whatever the fuel.
\<close>

fun pathLoop ::
  "nat \<Rightarrow> ('cg, 'rng) relaxation \<Rightarrow> (nat \<times> rat) option list \<Rightarrow> arcs \<Rightarrow>
   ('cg, 'rng) pstate \<Rightarrow> (fault option \<times> ('cg, 'rng) pstate) option" where
  "pathLoop 0 E colSubstitutions A st = None"
| "pathLoop (Suc fuel) E colSubstitutions A st =
     (if currPathLen st = maxPathLen then Some (None, st)
      else
        case loopBody E colSubstitutions A st of
          Continue st' \<Rightarrow> pathLoop fuel E colSubstitutions A st'
        | Break st' \<Rightarrow> Some (None, st')
        | Fault f st' \<Rightarrow> Some (Some f, st')
        | Spin st' \<Rightarrow> None)"

text \<open>The body of the loop over the seed rows (lines 169--309) for a usable row \<open>i\<close>:
  seed the aggregator, run the path loop, clear the aggregator.\<close>

definition seedState ::
  "('cg, 'rng) relaxation \<Rightarrow> RowType list \<Rightarrow> nat \<Rightarrow> ('cg, 'rng) pstate \<Rightarrow> ('cg, 'rng) pstate" where
  "seedState E rowtype i st =
     (let w = (if rowtype ! i = kLeq then - 1 else 1)
      in st\<lparr>lpAggregator := addRow E i w (lpAggregator st),
            currPathLen := 1,
            trace := trace st @ [Seeded i w]\<rparr>)"

definition seedRow ::
  "nat \<Rightarrow> ('cg, 'rng) relaxation \<Rightarrow> (nat \<times> rat) option list \<Rightarrow> RowType list \<Rightarrow> arcs \<Rightarrow>
   nat \<Rightarrow> ('cg, 'rng) pstate \<Rightarrow> (fault option \<times> ('cg, 'rng) pstate) option" where
  "seedRow fuel E colSubstitutions rowtype A i st =
     (case pathLoop fuel E colSubstitutions A (seedState E rowtype i st) of
        None \<Rightarrow> None
      | Some (Some f, st') \<Rightarrow> Some (Some f, st')
      | Some (None, st') \<Rightarrow> Some (None, st'\<lparr>lpAggregator := clear\<rparr>))"

fun seedLoop ::
  "nat \<Rightarrow> ('cg, 'rng) relaxation \<Rightarrow> (nat \<times> rat) option list \<Rightarrow> RowType list \<Rightarrow> arcs \<Rightarrow>
   nat list \<Rightarrow> ('cg, 'rng) pstate \<Rightarrow> (fault option \<times> ('cg, 'rng) pstate) option" where
  "seedLoop fuel E colSubstitutions rowtype A [] st = Some (None, st)"
| "seedLoop fuel E colSubstitutions rowtype A (i # is) st =
     (if rowtype ! i = kUnusuable then seedLoop fuel E colSubstitutions rowtype A is st
      else
        case seedRow fuel E colSubstitutions rowtype A i st of
          None \<Rightarrow> None
        | Some (Some f, st') \<Rightarrow> Some (Some f, st')
        | Some (None, st') \<Rightarrow> seedLoop fuel E colSubstitutions rowtype A is st')"

section \<open>The separator\<close>

text \<open>
  \<open>separateLpSolution\<close> receives the aggregator, the cut generator state and the state
  in which the previous call left the member \<open>randgen\<close>; \<open>fuel\<close> bounds the rounds of
  every path loop.
\<close>

definition separateLpSolution ::
  "nat \<Rightarrow> ('cg, 'rng) relaxation \<Rightarrow> aggregation \<Rightarrow> 'cg \<Rightarrow> 'rng \<Rightarrow>
   (fault option \<times> ('cg, 'rng) pstate) option" where
  "separateLpSolution fuel E ag cg oldgen =
     (let st = \<lparr>lpAggregator = ag, cutGen = cg,
                randgen = initialise E (random_seed E + numLpIterations E),
                currPathLen = 0, trace = []\<rparr>
      in case detectSubstitutions E of
           Inl f \<Rightarrow> Some (Some f, st)
         | Inr (colSubstitutions, rowtype) \<Rightarrow>
             seedLoop fuel E colSubstitutions rowtype (buildArcs E colSubstitutions rowtype)
               [0 ..< num_row (lp E)] st)"

section \<open>Reading the event trace\<close>

text \<open>The weights of the extension rows.\<close>

fun extensionWeights :: "event list \<Rightarrow> rat list" where
  "extensionWeights [] = []"
| "extensionWeights (Extended r w # tr) = w # extensionWeights tr"
| "extensionWeights (e # tr) = extensionWeights tr"

text \<open>The number of rows folded into aggregations, not counting substitution rows.\<close>

fun foldedRows :: "event list \<Rightarrow> nat" where
  "foldedRows [] = 0"
| "foldedRows (Seeded r w # tr) = Suc (foldedRows tr)"
| "foldedRows (Extended r w # tr) = Suc (foldedRows tr)"
| "foldedRows (e # tr) = foldedRows tr"

text \<open>The random bits of a trace in the order in which they were drawn, and the bits
  that \<open>n\<close> successive calls of \<open>bit\<close> return from a generator state, with the state in
  which they leave the generator.\<close>

fun coinFlips :: "event list \<Rightarrow> bool list" where
  "coinFlips [] = []"
| "coinFlips (CoinFlip b # tr) = b # coinFlips tr"
| "coinFlips (e # tr) = coinFlips tr"

fun drawBits :: "('cg, 'rng) relaxation \<Rightarrow> nat \<Rightarrow> 'rng \<Rightarrow> bool list \<times> 'rng" where
  "drawBits E 0 g = ([], g)"
| "drawBits E (Suc n) g =
     (let (b, g') = bit E g; (bs, g'') = drawBits E n g' in (b # bs, g''))"

section \<open>Example relaxations\<close>

text \<open>
  Small relaxations on which the statements below are evaluated.  The cut generator
  state counts the calls of \<open>generateCut\<close>, the random generator is a counter whose bit is
  the parity, and the complemented form negates the coefficients.  The coefficients are
  small integers and the weights that get folded in are integers or halves, so the sums and
  products of these runs are the same in binary floating point; the tolerance \<open>1 / 10\<close>
  and weights such as \<open>1 / 100\<close> are rounded there, but enter only comparisons that the
  rounding does not change.
\<close>

definition negated :: "(nat \<times> rat) list \<Rightarrow> (nat \<times> rat) list" where
  "negated = map (\<lambda>e. (fst e, - snd e))"

definition parityBit :: "nat \<Rightarrow> bool \<times> nat" where
  "parityBit n = (even n, Suc n)"

definition failingCut :: "nat \<Rightarrow> (nat \<times> rat) list \<Rightarrow> rat \<Rightarrow> bool \<times> nat" where
  "failingCut cg baseRow rhs = (False, Suc cg)"

definition succeedingCut :: "nat \<Rightarrow> (nat \<times> rat) list \<Rightarrow> rat \<Rightarrow> bool \<times> nat" where
  "succeedingCut cg baseRow rhs = (True, Suc cg)"

text \<open>Two continuous columns and three rows \<open>\<ge> 0\<close> that are tight:
  row 0 is \<open>- x0 + x1\<close>, row 1 is \<open>100 x0\<close>, row 2 is \<open>- x1\<close>.\<close>

definition twoColLp :: HighsLp where
  "twoColLp =
     \<lparr>num_col = 2, num_row = 3, a_start = [0, 2, 4], a_index = [0, 1, 0, 2],
      a_value = [- 1, 100, 1, - 1],
      row_lower = [Finite 0, Finite 0, Finite 0], row_upper = [PlusInf, PlusInf, PlusInf]\<rparr>"

definition twoCol :: "(nat, nat) relaxation" where
  "twoCol =
     \<lparr>lp = twoColLp, row_value = [0, 0, 0], row_dual = [1, 1, 1], feastol = 1 / 10,
      continuous_cols = [0, 1], variableType = (\<lambda>c. kContinuous), boundDistance = (\<lambda>c. 1),
      getRow = (!) [[(0, - 1), (1, 1)], [(0, 100)], [(1, - 1)]],
      isColIntegral = (\<lambda>c. False), random_seed = 0, numLpIterations = 0,
      generateCut = failingCut, complemented = negated, initialise = nat, bit = parityBit\<rparr>"

text \<open>One continuous column and two tight rows \<open>\<ge> 0\<close>: row 0 is \<open>- x0\<close>, row 1 is
  \<open>100 x0\<close>.\<close>

definition oneColLp :: HighsLp where
  "oneColLp =
     \<lparr>num_col = 1, num_row = 2, a_start = [0, 2], a_index = [0, 1],
      a_value = [- 1, 100],
      row_lower = [Finite 0, Finite 0], row_upper = [PlusInf, PlusInf]\<rparr>"

definition oneCol :: "(nat, nat) relaxation" where
  "oneCol =
     \<lparr>lp = oneColLp, row_value = [0, 0], row_dual = [1, 1], feastol = 1 / 10,
      continuous_cols = [0], variableType = (\<lambda>c. kContinuous), boundDistance = (\<lambda>c. 1),
      getRow = (!) [[(0, - 1)], [(0, 100)]],
      isColIntegral = (\<lambda>c. False), random_seed = 0, numLpIterations = 0,
      generateCut = failingCut, complemented = negated, initialise = nat, bit = parityBit\<rparr>"

text \<open>
  Three columns, \<open>x1\<close> integer, and four rows: the equations \<open>2 x0 + x1 = 0\<close> (row 0) and
  \<open>3 x0 + x1 = 0\<close> (row 2), and the tight rows \<open>- x0 + x2 \<ge> 0\<close> (row 1) and \<open>- x2 \<ge> 0\<close>
  (row 3).
\<close>

definition substLp :: HighsLp where
  "substLp =
     \<lparr>num_col = 3, num_row = 4, a_start = [0, 3, 5, 7], a_index = [0, 1, 2, 0, 2, 1, 3],
      a_value = [2, - 1, 3, 1, 1, 1, - 1],
      row_lower = [Finite 0, Finite 0, Finite 0, Finite 0],
      row_upper = [Finite 0, PlusInf, Finite 0, PlusInf]\<rparr>"

definition substEx :: "(nat, nat) relaxation" where
  "substEx =
     \<lparr>lp = substLp, row_value = [0, 0, 0, 0], row_dual = [1, 1, 1, 1], feastol = 1 / 10,
      continuous_cols = [0, 2],
      variableType = (\<lambda>c. if c = 1 then kInteger else kContinuous),
      boundDistance = (\<lambda>c. 1),
      getRow = (!) [[(0, 2), (1, 1)], [(0, - 1), (2, 1)], [(0, 3), (1, 1)], [(2, - 1)]],
      isColIntegral = (\<lambda>c. c = 1), random_seed = 0, numLpIterations = 0,
      generateCut = failingCut, complemented = negated, initialise = nat, bit = parityBit\<rparr>"

text \<open>Four rows over one column with value 1, one of each kind: an equation, a row
  tight at its lower bound, a row tight at its upper bound and a row with both slacks above
  the tolerance.\<close>

definition kindsLp :: HighsLp where
  "kindsLp =
     \<lparr>num_col = 1, num_row = 4, a_start = [0, 4], a_index = [0, 1, 2, 3],
      a_value = [2, 1, 5, 3],
      row_lower = [Finite 2, Finite 1, MinusInf, Finite 0],
      row_upper = [Finite 2, PlusInf, Finite 5, Finite 5]\<rparr>"

definition kindsEx :: "(nat, nat) relaxation" where
  "kindsEx =
     \<lparr>lp = kindsLp, row_value = [2, 1, 5, 3], row_dual = [1, 1, 1, 1], feastol = 1 / 10,
      continuous_cols = [0], variableType = (\<lambda>c. kContinuous), boundDistance = (\<lambda>c. 1),
      getRow = (!) [[(0, 2)], [(0, 1)], [(0, 5)], [(0, 3)]],
      isColIntegral = (\<lambda>c. False), random_seed = 0, numLpIterations = 0,
      generateCut = failingCut, complemented = negated, initialise = nat, bit = parityBit\<rparr>"

text \<open>
  One continuous column and four tight rows \<open>\<ge> 0\<close>: row 0 is \<open>- x0\<close>, the rows 1, 2
  and 3 are \<open>x0\<close>.  The three in-arc rows of the column get the same weight and the same
  score, so the choice among them is made by random bits.
\<close>

definition tieLp :: HighsLp where
  "tieLp =
     \<lparr>num_col = 1, num_row = 4, a_start = [0, 4], a_index = [0, 1, 2, 3],
      a_value = [- 1, 1, 1, 1],
      row_lower = [Finite 0, Finite 0, Finite 0, Finite 0],
      row_upper = [PlusInf, PlusInf, PlusInf, PlusInf]\<rparr>"

definition tieEx :: "(nat, nat) relaxation" where
  "tieEx =
     \<lparr>lp = tieLp, row_value = [0, 0, 0, 0], row_dual = [1, 1, 1, 1], feastol = 1 / 8,
      continuous_cols = [0], variableType = (\<lambda>c. kContinuous), boundDistance = (\<lambda>c. 1),
      getRow = (!) [[(0, - 1)], [(0, 1)], [(0, 1)], [(0, 1)]],
      isColIntegral = (\<lambda>c. False), random_seed = 3, numLpIterations = 4,
      generateCut = failingCut, complemented = negated, initialise = nat, bit = parityBit\<rparr>"

text \<open>
  Two columns, \<open>x1\<close> integer, and two rows: the equation \<open>0 x0 + x1 = 0\<close> (row 0), in
  which the coefficient zero of \<open>x0\<close> is stored, and the tight row \<open>- x0 \<ge> 0\<close> (row 1).
\<close>

definition zeroLp :: HighsLp where
  "zeroLp =
     \<lparr>num_col = 2, num_row = 2, a_start = [0, 2, 3], a_index = [0, 1, 0],
      a_value = [0, - 1, 1],
      row_lower = [Finite 0, Finite 0], row_upper = [Finite 0, PlusInf]\<rparr>"

definition zeroEx :: "(nat, nat) relaxation" where
  "zeroEx =
     \<lparr>lp = zeroLp, row_value = [0, 0], row_dual = [1, 1], feastol = 1 / 8,
      continuous_cols = [0],
      variableType = (\<lambda>c. if c = 1 then kInteger else kContinuous),
      boundDistance = (\<lambda>c. 1),
      getRow = (!) [[(0, 0), (1, 1)], [(0, - 1)]],
      isColIntegral = (\<lambda>c. c = 1), random_seed = 0, numLpIterations = 0,
      generateCut = failingCut, complemented = negated, initialise = nat, bit = parityBit\<rparr>"

section \<open>Notions used in the proofs\<close>

text \<open>The state carried by the outcome of a round, and the band of safe weights.\<close>

fun stateOf :: "'a ctl \<Rightarrow> 'a" where
  "stateOf (Continue s) = s"
| "stateOf (Break s) = s"
| "stateOf (Fault f s) = s"
| "stateOf (Spin s) = s"

definition weightsInBand :: "rat \<Rightarrow> event list \<Rightarrow> bool" where
  "weightsInBand tol tr = list_all (\<lambda>w. tol \<le> \<bar>w\<bar> \<and> \<bar>w\<bar> \<le> 1 / tol) (extensionWeights tr)"

text \<open>A pick is sound when its weight has passed \<open>checkWeight\<close>.\<close>

definition pickOk :: "rat \<Rightarrow> 'rng pick \<Rightarrow> bool" where
  "pickOk tol p = (row p \<noteq> None \<longrightarrow> checkWeight tol (weight p))"

text \<open>A relaxation with another configured seed and iteration count.\<close>

abbreviation (input) reseed ::
  "('cg, 'rng) relaxation \<Rightarrow> int \<Rightarrow> int \<Rightarrow> ('cg, 'rng) relaxation" where
  "reseed E a b \<equiv> E\<lparr>random_seed := a, numLpIterations := b\<rparr>"

text \<open>The arcs of \<open>twoCol\<close>, the state at entry and the state after seeding row 0.\<close>

definition twoColArcs :: arcs where
  "twoColArcs = buildArcs twoCol [None, None] [kGeq, kGeq, kGeq]"

definition startState :: "(nat, nat) pstate" where
  "startState = \<lparr>lpAggregator = [], cutGen = 0, randgen = 0, currPathLen = 0, trace = []\<rparr>"

definition twoColSeeded :: "(nat, nat) pstate" where
  "twoColSeeded = seedState twoCol [kGeq, kGeq, kGeq] 0 startState"



text \<open>The state in which the separator leaves \<open>substEx\<close>.\<close>

definition substExFinal :: "(nat, nat) pstate" where
  "substExFinal =
     \<lparr>lpAggregator = [], cutGen = 10, randgen = 0, currPathLen = 2,
      trace =
        [Seeded 1 1, Substituted 0 (1 / 2), CutAttempt False False, CutAttempt True False,
         Extended 3 1, CutAttempt False False, CutAttempt True False,
         Seeded 2 1, Substituted 0 (- (3 / 2)), CutAttempt False False, CutAttempt True False,
         Seeded 3 1, CutAttempt False False, CutAttempt True False,
         Extended 1 1, Substituted 0 (1 / 2), CutAttempt False False, CutAttempt True False]\<rparr>"

text \<open>The state in which the separator leaves \<open>tieEx\<close>, whose generator starts
  from 7.\<close>

definition tieFinal :: "(nat, nat) pstate" where
  "tieFinal =
     \<lparr>lpAggregator = [], cutGen = 16, randgen = 9, currPathLen = 2,
      trace =
        [Seeded 0 1, CutAttempt False False, CutAttempt True False,
         CoinFlip False, CoinFlip True, Extended 3 1,
         CutAttempt False False, CutAttempt True False,
         Seeded 1 1, CutAttempt False False, CutAttempt True False,
         Extended 0 1, CutAttempt False False, CutAttempt True False,
         Seeded 2 1, CutAttempt False False, CutAttempt True False,
         Extended 0 1, CutAttempt False False, CutAttempt True False,
         Seeded 3 1, CutAttempt False False, CutAttempt True False,
         Extended 0 1, CutAttempt False False, CutAttempt True False]\<rparr>"

text \<open>The sign convention of the specification (section 3): in a \<open>LessOrEqual\<close> row a
  negative coefficient is an in-arc and a positive one an out-arc; in a \<open>GreaterOrEqual\<close>
  or \<open>Equality\<close> row the test is inverted.\<close>

definition inArcSpec :: "RowType \<Rightarrow> rat \<Rightarrow> bool" where
  "inArcSpec k a = ((k = kLeq \<and> a < 0) \<or> ((k = kGeq \<or> k = kEq) \<and> a > 0))"

definition outArcSpec :: "RowType \<Rightarrow> rat \<Rightarrow> bool" where
  "outArcSpec k a = ((k = kLeq \<and> a > 0) \<or> ((k = kGeq \<or> k = kEq) \<and> a < 0))"

text \<open>The entries of a column that the inner loop appends to the in-arc table and to the
  out-arc table.\<close>

definition toInArcs :: "RowType list \<Rightarrow> nat \<times> rat \<Rightarrow> bool" where
  "toInArcs rowtype e =
     (case rowtype ! fst e of
        kUnusuable \<Rightarrow> False
      | kLeq \<Rightarrow> snd e < 0
      | kGeq \<Rightarrow> snd e > 0
      | kEq \<Rightarrow> snd e > 0)"

definition toOutArcs :: "RowType list \<Rightarrow> nat \<times> rat \<Rightarrow> bool" where
  "toOutArcs rowtype e =
     (case rowtype ! fst e of
        kUnusuable \<Rightarrow> False
      | kLeq \<Rightarrow> \<not> snd e < 0
      | kGeq \<Rightarrow> \<not> snd e > 0
      | kEq \<Rightarrow> \<not> snd e > 0)"

text \<open>A column whose ranges hold exactly its in-arc and out-arc entries, inside the
  global tables.\<close>

definition arcsDone :: "HighsLp \<Rightarrow> RowType list \<Rightarrow> arcs \<Rightarrow> nat \<Rightarrow> bool" where
  "arcsDone L rowtype A col =
     (inArcsOf A col = filter (toInArcs rowtype) (colEntries L col)
      \<and> outArcsOf A col = filter (toOutArcs rowtype) (colEntries L col)
      \<and> snd (colInArcs A ! col) \<le> length (inArcRows A)
      \<and> snd (colOutArcs A ! col) \<le> length (outArcRows A))"

text \<open>The outcome of substitution detection in the words of the specification: a row
  recorded as the substitution source of some column becomes \<open>Unusable\<close>, every other
  row keeps its kind.\<close>

definition demotedSpec :: "('cg, 'rng) relaxation \<Rightarrow> nat \<Rightarrow> bool" where
  "demotedSpec E i =
     list_ex (\<lambda>c. case substitutionSpec E c of None \<Rightarrow> False | Some (r, v) \<Rightarrow> r = i)
       [0 ..< num_col (lp E)]"

definition rowtypeSpec :: "('cg, 'rng) relaxation \<Rightarrow> nat \<Rightarrow> RowType" where
  "rowtypeSpec E i = (if demotedSpec E i then kUnusuable else classifyRows E ! i)"

text \<open>The relation between the state before and after the substitution loop has run over
  \<open>rows\<close>.\<close>

definition substResult ::
  "('cg, 'rng) relaxation \<Rightarrow> nat list \<Rightarrow> (nat \<times> rat) option list \<Rightarrow> RowType list \<Rightarrow>
   (nat \<times> rat) option list \<Rightarrow> RowType list \<Rightarrow> bool" where
  "substResult E rows cs rt cs' rt' =
     (length cs' = length cs \<and> length rt' = length rt \<and>
      (\<forall>c < num_col (lp E).
         cs' ! c = (case cs ! c of Some x \<Rightarrow> Some x | None \<Rightarrow> firstQualifying E c rows)) \<and>
      (\<forall>j < length rt.
         rt' ! j = (if \<exists>c < num_col (lp E). \<exists>v. cs ! c = None \<and> cs' ! c = Some (j, v)
                    then kUnusuable else rt ! j)))"

text \<open>A generator state \<open>g\<close> and a trace \<open>tr\<close> are in step with the generator state \<open>g0\<close>
  when the random bits of the trace are the first bits drawn from \<open>g0\<close> and these draws
  leave the generator in \<open>g\<close>.\<close>

definition drawn :: "('cg, 'rng) relaxation \<Rightarrow> 'rng \<Rightarrow> event list \<Rightarrow> 'rng \<Rightarrow> bool" where
  "drawn E g0 tr g = (drawBits E (length (coinFlips tr)) g0 = (coinFlips tr, g))"

section \<open>Row classification: proofs\<close>

lemma classifyLoop_length: "length (classifyLoop E is rowtype) = length rowtype"
  by (induction "is" arbitrary: rowtype) auto

lemma classifyLoop_nth:
  "i < length rowtype \<Longrightarrow>
   classifyLoop E is rowtype ! i =
     (if i \<in> set is
      then classifyRow (feastol E) (row_lower (lp E) ! i) (row_upper (lp E) ! i) (row_value E ! i)
      else rowtype ! i)"
  by (induction "is" arbitrary: rowtype) (auto simp: classifyLoop_length nth_list_update)

lemma classifyRows_length: "length (classifyRows E) = num_row (lp E)"
  by (simp add: classifyRows_def classifyLoop_length)

lemma classifyRows_nth:
  "i < num_row (lp E) \<Longrightarrow>
   classifyRows E ! i =
     classifyRow (feastol E) (row_lower (lp E) ! i) (row_upper (lp E) ! i) (row_value E ! i)"
  by (simp add: classifyRows_def classifyLoop_nth)

lemma classifyRow_spec:
  "lower \<noteq> PlusInf \<Longrightarrow> upper \<noteq> MinusInf \<Longrightarrow>
   classifyRow tol lower upper val = rowKindSpec tol lower upper val"
  by (cases lower; cases upper)
     (simp_all add: classifyRow_def rowKindSpec_def lowerSlackSpec_def upperSlackSpec_def)

text \<open>
  C4.  The first loop gives every row of the relaxation exactly one kind (the array has
  one entry per row), and the entry is the kind the specification describes: \<open>Equality\<close>
  for equal bounds; otherwise, with the slacks computed from the row activity and infinite
  for an infinite bound, \<open>Unusable\<close> when both slacks exceed the tolerance,
  \<open>GreaterOrEqual\<close> when the lower slack is strictly smaller and \<open>LessOrEqual\<close> otherwise.
\<close>

theorem classification_partition:
  "boundsOk E \<Longrightarrow>
   length (classifyRows E) = num_row (lp E) \<and>
   (\<forall>i < num_row (lp E).
      classifyRows E ! i =
        rowKindSpec (feastol E) (row_lower (lp E) ! i) (row_upper (lp E) ! i) (row_value E ! i))"
  by (simp add: classifyRows_length classifyRows_nth classifyRow_spec boundsOk_def list_all_iff)

theorem classification_partition_witness:
  "boundsOk kindsEx \<and>
   length (classifyRows kindsEx) = 4 \<and>
   classifyRows kindsEx ! 0 = rowKindSpec (1 / 10) (Finite 2) (Finite 2) 2 \<and>
   classifyRows kindsEx ! 1 = rowKindSpec (1 / 10) (Finite 1) PlusInf 1 \<and>
   classifyRows kindsEx ! 2 = rowKindSpec (1 / 10) MinusInf (Finite 5) 5 \<and>
   classifyRows kindsEx ! 3 = rowKindSpec (1 / 10) (Finite 0) (Finite 5) 3 \<and>
   classifyRows kindsEx = [kEq, kGeq, kLeq, kUnusuable]"
proof -
  have h: "boundsOk kindsEx" by code_simp
  have v: "classifyRows kindsEx = [kEq, kGeq, kLeq, kUnusuable]" by code_simp
  have n: "num_row (lp kindsEx) = 4" "feastol kindsEx = 1 / 10"
    "row_lower (lp kindsEx) = [Finite 2, Finite 1, MinusInf, Finite 0]"
    "row_upper (lp kindsEx) = [Finite 2, PlusInf, Finite 5, Finite 5]"
    "row_value kindsEx = [2, 1, 5, 3]"
    by (simp_all add: kindsEx_def kindsLp_def)
  from classification_partition [OF h]
  have "length (classifyRows kindsEx) = 4"
    and a: "\<forall>i<4. classifyRows kindsEx ! i =
        rowKindSpec (1 / 10) ([Finite 2, Finite 1, MinusInf, Finite 0] ! i)
          ([Finite 2, PlusInf, Finite 5, Finite 5] ! i) ([2, 1, 5, 3] ! i)"
    unfolding n by blast+
  moreover from a have "classifyRows kindsEx ! 0 = rowKindSpec (1 / 10) (Finite 2) (Finite 2) 2"
    by force
  moreover from a have "classifyRows kindsEx ! 1 = rowKindSpec (1 / 10) (Finite 1) PlusInf 1"
    by force
  moreover from a have "classifyRows kindsEx ! 2 = rowKindSpec (1 / 10) MinusInf (Finite 5) 5"
    by force
  moreover from a have "classifyRows kindsEx ! 3 = rowKindSpec (1 / 10) (Finite 0) (Finite 5) 3"
    by force
  ultimately show ?thesis using h v by blast
qed

section \<open>Cut generation attempts\<close>

lemma twoColArcs_eval:
  "twoColArcs = \<lparr>inArcRows = [(1, 100), (0, 1)], colInArcs = [(0, 1), (1, 2)],
    outArcRows = [(0, - 1), (2, - 1)], colOutArcs = [(0, 1), (1, 2)]\<rparr>"
  by code_simp

lemma twoColSeeded_eval:
  "twoColSeeded = \<lparr>lpAggregator = [(0, - 1), (1, 1)], cutGen = 0, randgen = 0, currPathLen = 1,
     trace = [Seeded 0 1]\<rparr>"
  by code_simp

lemma scanBaseRow_added_mono:
  "scanBaseRow E cs A xs s = Inr s' \<Longrightarrow> addedSubstitutionRows s \<Longrightarrow> addedSubstitutionRows s'"
  by (induction E cs A xs s rule: scanBaseRow.induct)
     (auto split: option.splits if_splits)

lemma scanBaseRow_unchanged:
  "scanBaseRow E cs A xs s = Inr s' \<Longrightarrow> \<not> addedSubstitutionRows s' \<Longrightarrow>
   aggr s' = aggr s \<and> subst_log s' = subst_log s"
proof (induction E cs A xs s rule: scanBaseRow.induct)
  case (1 E cs A s)
  then show ?case by simp
next
  case (2 E cs A col val rest s)
  show ?case
  proof (cases "col \<ge> num_col (lp E) \<or> boundDistance E col = 0 \<or> isColIntegral E col")
    case True
    then show ?thesis using 2 by simp
  next
    case False
    show ?thesis
    proof (cases "cs ! col")
      case None
      then show ?thesis using False 2 by (auto split: if_splits)
    next
      case (Some rp)
      obtain r pv where rp: "rp = (r, pv)" by (cases rp)
      show ?thesis
      proof (cases "ddiv (- val) pv")
        case None
        then show ?thesis using False Some rp "2.prems" by simp
      next
        case (Some w)
        with False \<open>cs ! col = Some rp\<close> rp "2.prems"
        have "scanBaseRow E cs A rest
                (s\<lparr>addedSubstitutionRows := True, aggr := addRow E r w (aggr s),
                   subst_log := subst_log s @ [Substituted r w]\<rparr>) = Inr s'"
          by simp
        from scanBaseRow_added_mono [OF this] "2.prems"(2) show ?thesis by simp
      qed
    qed
  qed
qed

lemma twoCol_scan:
  "scanBaseRow twoCol [None, None] twoColArcs
     (getCurrentAggregation twoCol (lpAggregator twoColSeeded) False)
     (startScan (lpAggregator twoColSeeded)) =
   Inr \<lparr>addedSubstitutionRows = False, bestOutArc = Some (0, - 1, 1),
        bestInArc = Some (1, 1, 1), aggr = [(0, - 1), (1, 1)], subst_log = []\<rparr>"
  by code_simp

text \<open>
  C2, as the code has it.  In a round in which the scan folded no substitution row, the
  cut generator is called on the aggregated row as it is, with right-hand side 0.  If that
  call succeeds the round ends the path and the complemented form is not tried.  Otherwise
  the cut generator is called on the complemented form, again with right-hand side 0; the
  round ends the path at this point if that call succeeds or if there is neither an
  out-arc nor an in-arc candidate, and otherwise goes on to the extension step with the
  path length incremented (where the path may still end as a dead end).
\<close>

theorem cut_attempts:
  assumes "scanBaseRow E cs A (getCurrentAggregation E (lpAggregator st) False)
             (startScan (lpAggregator st)) = Inr s"
    and "\<not> addedSubstitutionRows s"
  shows "loopBody E cs A st =
     (let baseRow = getCurrentAggregation E (lpAggregator st) False;
          (ok1, cg1) = generateCut E (cutGen st) baseRow 0
      in if ok1 then Break (st\<lparr>cutGen := cg1, trace := trace st @ [CutAttempt False True]\<rparr>)
         else
           let (ok2, cg2) = generateCut E cg1 (getCurrentAggregation E (lpAggregator st) True) 0;
               st2 = st\<lparr>cutGen := cg2,
                        trace := trace st @ [CutAttempt False False, CutAttempt True ok2]\<rparr>
           in if ok2 \<or> (bestOutArc s = None \<and> bestInArc s = None) then Break st2
              else extendPath E A (st2\<lparr>currPathLen := currPathLen st + 1\<rparr>)
                     (bestOutArc s) (bestInArc s))"
proof -
  from scanBaseRow_unchanged [OF assms]
  have u: "aggr s = lpAggregator st" "subst_log s = []" by (simp_all add: startScan_def)
  have st1: "st\<lparr>lpAggregator := aggr s, trace := trace st @ subst_log s\<rparr> = st"
    by (simp add: u)
  show ?thesis
    unfolding loopBody_def Let_def assms(1) sum.case st1
    using assms(2) by (auto simp add: attemptCuts_def Let_def split: prod.splits)
qed

theorem cut_attempts_witness:
  "scanBaseRow twoCol [None, None] twoColArcs
     (getCurrentAggregation twoCol (lpAggregator twoColSeeded) False)
     (startScan (lpAggregator twoColSeeded)) =
   Inr \<lparr>addedSubstitutionRows = False, bestOutArc = Some (0, - 1, 1),
        bestInArc = Some (1, 1, 1), aggr = [(0, - 1), (1, 1)], subst_log = []\<rparr> \<and>
   loopBody twoCol [None, None] twoColArcs twoColSeeded =
     extendPath twoCol twoColArcs
       (twoColSeeded\<lparr>cutGen := 2,
          trace := trace twoColSeeded @ [CutAttempt False False, CutAttempt True False],
          currPathLen := currPathLen twoColSeeded + 1\<rparr>)
       (Some (0, - 1, 1)) (Some (1, 1, 1))"
proof -
  have g: "generateCut twoCol = failingCut" by (simp add: twoCol_def)
  have c: "cutGen twoColSeeded = 0" by (simp add: twoColSeeded_eval)
  from cut_attempts [OF twoCol_scan]
  have "loopBody twoCol [None, None] twoColArcs twoColSeeded =
     extendPath twoCol twoColArcs
       (twoColSeeded\<lparr>cutGen := 2,
          trace := trace twoColSeeded @ [CutAttempt False False, CutAttempt True False],
          currPathLen := currPathLen twoColSeeded + 1\<rparr>)
       (Some (0, - 1, 1)) (Some (1, 1, 1))"
    by (simp add: g c failingCut_def Let_def numeral_2_eq_2)
  then show ?thesis using twoCol_scan by blast
qed

text \<open>With a cut generator that succeeds, the round that follows the seeding of row 0 of
  \<open>twoCol\<close> calls the cut generator once, not twice.\<close>

theorem cut_attempts_counterexample:
  "loopBody (twoCol\<lparr>generateCut := succeedingCut\<rparr>) [None, None] twoColArcs twoColSeeded =
     Break \<lparr>lpAggregator = [(0, - 1), (1, 1)], cutGen = 1, randgen = 0, currPathLen = 1,
            trace = [Seeded 0 1, CutAttempt False True]\<rparr>"
  by code_simp

section \<open>Dead ends and the fallback to the in-arc candidate\<close>

lemma scanArcRows_row_mono:
  "row p \<noteq> None \<Longrightarrow> row (scanArcRows E cv xs p) \<noteq> None"
  by (induction E cv xs p rule: scanArcRows.induct)
     (auto simp: Let_def split: option.splits prod.splits)

lemma scanArcRows_none:
  "row (scanArcRows E cv xs p) = None \<Longrightarrow> scanArcRows E cv xs p = p"
proof (induction xs arbitrary: p)
  case Nil
  then show ?case by simp
next
  case (Cons x xs)
  obtain r a where x: "x = (r, a)" by (cases x)
  have n: "row p = None" using scanArcRows_row_mono [of p E cv "x # xs"] Cons.prems by blast
  show ?case
  proof (cases "ddiv (- cv) a")
    case None
    then show ?thesis using Cons x by simp
  next
    case (Some w)
    show ?thesis
    proof (cases "checkWeight (feastol E) w")
      case True
      have "row (scanArcRows E cv (x # xs) p) \<noteq> None"
        using Some True n x
        by (simp add: Let_def scanArcRows_row_mono)
      with Cons.prems show ?thesis by simp
    next
      case False
      then show ?thesis using Some Cons x by simp
    qed
  qed
qed

lemma checkOutArcCol_dead_end:
  "row (scanArcRows E iv (outArcsOf A ic) (startPick (randgen st))) = None \<Longrightarrow>
   checkOutArcCol E A st (Some (ic, iv, di)) = Break st"
proof -
  assume n: "row (scanArcRows E iv (outArcsOf A ic) (startPick (randgen st))) = None"
  have "scanArcRows E iv (outArcsOf A ic) (startPick (randgen st)) = startPick (randgen st)"
    by (rule scanArcRows_none [OF n])
  then show ?thesis
    by (simp add: checkOutArcCol_def Let_def startPick_def)
qed

lemma checkInArcCol_fallback:
  "row (scanArcRows E ov (inArcsOf A oc) (startPick (randgen st))) = None \<Longrightarrow>
   checkInArcCol E A st (Some (oc, ov, do)) bestIn = checkOutArcCol E A st bestIn"
proof -
  assume n: "row (scanArcRows E ov (inArcsOf A oc) (startPick (randgen st))) = None"
  have "scanArcRows E ov (inArcsOf A oc) (startPick (randgen st)) = startPick (randgen st)"
    by (rule scanArcRows_none [OF n])
  then show ?thesis
    by (simp add: checkInArcCol_def Let_def startPick_def)
qed

text \<open>
  C1, as the code has it.  Let an in-arc candidate exist.  If it is the chosen column, or
  if the out-arc candidate was chosen and the scan of its in-arc list found no qualifying
  row, the out-arc list of the in-arc candidate is scanned: when no row qualifies there
  either, the path stops as a dead end with the state unchanged (nothing folded, no random
  bit drawn); when a row qualifies it is folded into the aggregation.
\<close>

theorem dead_end:
  assumes "bestIn = Some (ic, iv, di)"
    and "\<not> preferOutArc (feastol E) bestOut bestIn \<or>
         (\<exists>oc ov do. bestOut = Some (oc, ov, do) \<and>
            row (scanArcRows E ov (inArcsOf A oc) (startPick (randgen st))) = None)"
  shows "extendPath E A st bestOut bestIn =
     (let p = scanArcRows E iv (outArcsOf A ic) (startPick (randgen st))
      in case row p of
           None \<Rightarrow> Break st
         | Some r \<Rightarrow>
             Continue (st\<lparr>lpAggregator := addRow E r (weight p) (lpAggregator st),
                          randgen := gen p,
                          trace := trace st @ (flips p @ [Extended r (weight p)])\<rparr>))"
proof -
  have e: "extendPath E A st bestOut bestIn = checkOutArcCol E A st bestIn"
  proof (cases "preferOutArc (feastol E) bestOut bestIn")
    case False
    then show ?thesis by (simp add: extendPath_def)
  next
    case True
    with assms(2) obtain oc ov do where
      "bestOut = Some (oc, ov, do)"
      "row (scanArcRows E ov (inArcsOf A oc) (startPick (randgen st))) = None" by blast
    then show ?thesis using True by (simp add: extendPath_def checkInArcCol_fallback)
  qed
  show ?thesis
  proof (cases "row (scanArcRows E iv (outArcsOf A ic) (startPick (randgen st)))")
    case None
    then show ?thesis using e assms(1) by (simp add: checkOutArcCol_dead_end Let_def)
  next
    case (Some r)
    then show ?thesis using e assms(1) by (simp add: checkOutArcCol_def Let_def)
  qed
qed

theorem dead_end_witness:
  "extendPath twoCol twoColArcs twoColSeeded (Some (0, - 1, 1)) (Some (1, 1, 1)) =
     Continue \<lparr>lpAggregator = [(0, - 1), (1, 0)], cutGen = 0, randgen = 0, currPathLen = 1,
               trace = [Seeded 0 1, Extended 2 1]\<rparr> \<and>
   extendPath twoCol twoColArcs twoColSeeded None (Some (0, 1 / 1000, 1)) = Break twoColSeeded"
proof -
  have p: "preferOutArc (feastol twoCol) (Some (0, - 1, 1)) (Some (1, 1, 1))"
    by code_simp
  have n: "row (scanArcRows twoCol (- 1) (inArcsOf twoColArcs 0) (startPick (randgen twoColSeeded)))
             = None"
    by code_simp
  have q: "\<not> preferOutArc (feastol twoCol) None (Some (0, 1 / 1000, 1))"
    by (simp add: preferOutArc_def)
  have v1: "(let p = scanArcRows twoCol 1 (outArcsOf twoColArcs 1) (startPick (randgen twoColSeeded))
      in case row p of
           None \<Rightarrow> Break twoColSeeded
         | Some r \<Rightarrow>
             Continue (twoColSeeded\<lparr>lpAggregator := addRow twoCol r (weight p) (lpAggregator twoColSeeded),
                          randgen := gen p,
                          trace := trace twoColSeeded @ (flips p @ [Extended r (weight p)])\<rparr>)) =
     Continue \<lparr>lpAggregator = [(0, - 1), (1, 0)], cutGen = 0, randgen = 0, currPathLen = 1,
               trace = [Seeded 0 1, Extended 2 1]\<rparr>"
    by code_simp
  have v2: "(let p = scanArcRows twoCol (1 / 1000) (outArcsOf twoColArcs 0) (startPick (randgen twoColSeeded))
      in case row p of
           None \<Rightarrow> Break twoColSeeded
         | Some r \<Rightarrow>
             Continue (twoColSeeded\<lparr>lpAggregator := addRow twoCol r (weight p) (lpAggregator twoColSeeded),
                          randgen := gen p,
                          trace := trace twoColSeeded @ (flips p @ [Extended r (weight p)])\<rparr>)) =
     Break twoColSeeded"
    by code_simp
  have a: "extendPath twoCol twoColArcs twoColSeeded (Some (0, - 1, 1)) (Some (1, 1, 1)) =
     Continue \<lparr>lpAggregator = [(0, - 1), (1, 0)], cutGen = 0, randgen = 0, currPathLen = 1,
               trace = [Seeded 0 1, Extended 2 1]\<rparr>"
    using dead_end [where E = twoCol and A = twoColArcs and st = twoColSeeded
        and bestOut = "Some (0, - 1, 1)" and bestIn = "Some (1, 1, 1)" and ic = 1 and iv = 1
        and di = 1] p n v1
    by simp
  have b: "extendPath twoCol twoColArcs twoColSeeded None (Some (0, 1 / 1000, 1)) =
     Break twoColSeeded"
    using dead_end [where E = twoCol and A = twoColArcs and st = twoColSeeded
        and bestOut = None and bestIn = "Some (0, 1 / 1000, 1)" and ic = 0 and iv = "1 / 1000"
        and di = 1] q v2
    by simp
  show ?thesis using a b by blast
qed

text \<open>In \<open>twoCol\<close> the round after seeding row 0 chooses the out-arc candidate (column
  0), the scan of its in-arc list finds no qualifying row, and yet row 2 is folded in with
  weight 1: the path extension does not stop.\<close>

theorem dead_end_counterexample:
  "detectSubstitutions twoCol = Inr ([None, None], [kGeq, kGeq, kGeq]) \<and>
   scanBaseRow twoCol [None, None] twoColArcs
     (getCurrentAggregation twoCol (lpAggregator twoColSeeded) False)
     (startScan (lpAggregator twoColSeeded)) =
   Inr \<lparr>addedSubstitutionRows = False, bestOutArc = Some (0, - 1, 1),
        bestInArc = Some (1, 1, 1), aggr = [(0, - 1), (1, 1)], subst_log = []\<rparr> \<and>
   preferOutArc (feastol twoCol) (Some (0, - 1, 1)) (Some (1, 1, 1)) \<and>
   row (scanArcRows twoCol (- 1) (inArcsOf twoColArcs 0) (startPick (randgen twoColSeeded)))
     = None \<and>
   loopBody twoCol [None, None] twoColArcs twoColSeeded =
     Continue \<lparr>lpAggregator = [(0, - 1), (1, 0)], cutGen = 2, randgen = 0, currPathLen = 2,
               trace = [Seeded 0 1, CutAttempt False False, CutAttempt True False,
                        Extended 2 1]\<rparr>"
  by code_simp

text \<open>
  C10.  In \<open>oneCol\<close> the round after seeding row 0 has an out-arc candidate and no in-arc
  candidate; the only row of the in-arc list gets the weight \<open>1 / 100\<close>, below the
  tolerance \<open>1 / 10\<close>, so the code jumps to \<^verbatim>\<open>check_out_arc_col\<close> with
  \<open>bestInArcCol = -1\<close> and reads \<^verbatim>\<open>colOutArcs[-1]\<close>.
\<close>

theorem fallback_out_of_bounds:
  "separateLpSolution 12 oneCol [] 0 0 =
     Some (Some OutOfBounds,
           \<lparr>lpAggregator = [(0, - 1)], cutGen = 2, randgen = 0, currPathLen = 2,
            trace = [Seeded 0 1, CutAttempt False False, CutAttempt True False]\<rparr>)"
  by code_simp

section \<open>Choice of the extension column\<close>

text \<open>One step of the scan of an arc list either leaves the pick as it is, or draws a
  bit and keeps row and weight, or takes the row with its cancelling weight.\<close>

lemma scanArcRows_step:
  "\<exists>p'. scanArcRows E cv ((r', a') # xs) p = scanArcRows E cv xs p' \<and>
     (p' = p \<or> (row p' = row p \<and> weight p' = weight p) \<or>
      (row p' = Some r' \<and> a' \<noteq> 0 \<and> weight p' = - cv / a'))"
  by (auto simp: Let_def ddiv_def split: option.splits prod.splits if_splits)

lemma scanArcRows_from:
  "row (scanArcRows E cv xs p) = Some r \<Longrightarrow>
   (row p = Some r \<and> weight (scanArcRows E cv xs p) = weight p) \<or>
   (\<exists>a. (r, a) \<in> set xs \<and> a \<noteq> 0 \<and> weight (scanArcRows E cv xs p) = - cv / a)"
proof (induction xs arbitrary: p)
  case Nil
  then show ?case by simp
next
  case (Cons x xs)
  obtain r' a' where x: "x = (r', a')" by (cases x)
  from scanArcRows_step [of E cv r' a' xs p]
  obtain p' where e: "scanArcRows E cv (x # xs) p = scanArcRows E cv xs p'"
    and c: "p' = p \<or> (row p' = row p \<and> weight p' = weight p) \<or>
            (row p' = Some r' \<and> a' \<noteq> 0 \<and> weight p' = - cv / a')"
    unfolding x by blast
  from Cons.prems e have "row (scanArcRows E cv xs p') = Some r" by simp
  from Cons.IH [OF this]
  have "(row p' = Some r \<and> weight (scanArcRows E cv xs p') = weight p') \<or>
        (\<exists>a. (r, a) \<in> set xs \<and> a \<noteq> 0 \<and> weight (scanArcRows E cv xs p') = - cv / a)" .
  then show ?case using c e x by auto
qed

text \<open>
  C7, as the code has it.  When the path is extended, the in-arc list of the out-arc
  candidate is scanned first, unless there is no out-arc candidate or the bound distance
  of the in-arc candidate exceeds that of the out-arc candidate by more than the
  feasibility tolerance; within the tolerance the out-arc candidate comes first.  The
  out-arc candidate is the column that is cancelled only if that scan finds a row: the row
  is then folded in.  If the scan finds no row, the out-arc list of the in-arc candidate
  is scanned from the same generator state, and a row found there is folded in instead
  (without an in-arc candidate this is the access outside \<open>colOutArcs\<close>).  In the other
  case the out-arc list of the in-arc candidate is scanned at once; a row found is folded
  in, and the path stops when there is none.  A row that a scan finds has an entry in the
  scanned list, and its weight cancels the coefficient of the candidate column.
\<close>

theorem extension_column:
  "(bestOut = Some (oc, ov, od) \<and>
      (bestIn = None \<or> (bestIn = Some (ic, iv, di) \<and> di - od \<le> feastol E)) \<longrightarrow>
    extendPath E A st bestOut bestIn =
      (let p = scanArcRows E ov (inArcsOf A oc) (startPick (randgen st))
       in case row p of
            Some r \<Rightarrow>
              Continue (st\<lparr>lpAggregator := addRow E r (weight p) (lpAggregator st),
                           randgen := gen p,
                           trace := trace st @ (flips p @ [Extended r (weight p)])\<rparr>)
          | None \<Rightarrow>
              (case bestIn of
                 None \<Rightarrow> Fault OutOfBounds st
               | Some (c, v, d) \<Rightarrow>
                   let q = scanArcRows E v (outArcsOf A c) (startPick (randgen st))
                   in case row q of
                        None \<Rightarrow> Break st
                      | Some r \<Rightarrow>
                          Continue
                            (st\<lparr>lpAggregator := addRow E r (weight q) (lpAggregator st),
                                randgen := gen q,
                                trace := trace st @ (flips q @ [Extended r (weight q)])\<rparr>)))) \<and>
   (bestIn = Some (ic, iv, di) \<and>
      (bestOut = None \<or> (bestOut = Some (oc, ov, od) \<and> di - od > feastol E)) \<longrightarrow>
    extendPath E A st bestOut bestIn =
      (let q = scanArcRows E iv (outArcsOf A ic) (startPick (randgen st))
       in case row q of
            None \<Rightarrow> Break st
          | Some r \<Rightarrow>
              Continue (st\<lparr>lpAggregator := addRow E r (weight q) (lpAggregator st),
                           randgen := gen q,
                           trace := trace st @ (flips q @ [Extended r (weight q)])\<rparr>))) \<and>
   (row (scanArcRows E cv xs (startPick g)) = Some r \<longrightarrow>
      (\<exists>a. (r, a) \<in> set xs \<and> a \<noteq> 0 \<and>
           weight (scanArcRows E cv xs (startPick g)) = - cv / a))"
proof (intro conjI impI)
  assume h: "bestOut = Some (oc, ov, od) \<and>
      (bestIn = None \<or> (bestIn = Some (ic, iv, di) \<and> di - od \<le> feastol E))"
  then have o: "bestOut = Some (oc, ov, od)" by simp
  from h have pr: "preferOutArc (feastol E) bestOut bestIn"
    by (auto simp: preferOutArc_def)
  let ?p = "scanArcRows E ov (inArcsOf A oc) (startPick (randgen st))"
  show "extendPath E A st bestOut bestIn =
      (let p = ?p
       in case row p of
            Some r \<Rightarrow>
              Continue (st\<lparr>lpAggregator := addRow E r (weight p) (lpAggregator st),
                           randgen := gen p,
                           trace := trace st @ (flips p @ [Extended r (weight p)])\<rparr>)
          | None \<Rightarrow>
              (case bestIn of
                 None \<Rightarrow> Fault OutOfBounds st
               | Some (c, v, d) \<Rightarrow>
                   let q = scanArcRows E v (outArcsOf A c) (startPick (randgen st))
                   in case row q of
                        None \<Rightarrow> Break st
                      | Some r \<Rightarrow>
                          Continue
                            (st\<lparr>lpAggregator := addRow E r (weight q) (lpAggregator st),
                                randgen := gen q,
                                trace := trace st @ (flips q @ [Extended r (weight q)])\<rparr>)))"
  proof (cases "row ?p")
    case (Some r)
    then show ?thesis using pr o by (simp add: extendPath_def checkInArcCol_def Let_def)
  next
    case None
    have e: "extendPath E A st bestOut bestIn = checkOutArcCol E A st bestIn"
      using pr o by (simp add: extendPath_def checkInArcCol_fallback [OF None])
    show ?thesis
    proof (cases bestIn)
      case n: None
      then show ?thesis using e None by (simp add: checkOutArcCol_def Let_def)
    next
      case s: (Some t)
      obtain c v d where t: "t = (c, v, d)" by (cases t)
      show ?thesis
      proof (cases "row (scanArcRows E v (outArcsOf A c) (startPick (randgen st)))")
        case n2: None
        then show ?thesis using e None s t
          by (simp add: checkOutArcCol_dead_end Let_def)
      next
        case s2: (Some r)
        then show ?thesis using e None s t by (simp add: checkOutArcCol_def Let_def)
      qed
    qed
  qed
next
  assume h: "bestIn = Some (ic, iv, di) \<and>
      (bestOut = None \<or> (bestOut = Some (oc, ov, od) \<and> di - od > feastol E))"
  then have i: "bestIn = Some (ic, iv, di)" by simp
  from h have pr: "\<not> preferOutArc (feastol E) bestOut bestIn"
    by (auto simp: preferOutArc_def)
  then have e: "extendPath E A st bestOut bestIn = checkOutArcCol E A st bestIn"
    by (simp add: extendPath_def)
  show "extendPath E A st bestOut bestIn =
      (let q = scanArcRows E iv (outArcsOf A ic) (startPick (randgen st))
       in case row q of
            None \<Rightarrow> Break st
          | Some r \<Rightarrow>
              Continue (st\<lparr>lpAggregator := addRow E r (weight q) (lpAggregator st),
                           randgen := gen q,
                           trace := trace st @ (flips q @ [Extended r (weight q)])\<rparr>))"
  proof (cases "row (scanArcRows E iv (outArcsOf A ic) (startPick (randgen st)))")
    case None
    then show ?thesis using e i by (simp add: checkOutArcCol_dead_end Let_def)
  next
    case (Some r)
    then show ?thesis using e i by (simp add: checkOutArcCol_def Let_def)
  qed
next
  assume "row (scanArcRows E cv xs (startPick g)) = Some r"
  from scanArcRows_from [OF this]
  show "\<exists>a. (r, a) \<in> set xs \<and> a \<noteq> 0 \<and>
           weight (scanArcRows E cv xs (startPick g)) = - cv / a"
    by (simp add: startPick_def)
qed

text \<open>
  On \<open>twoCol\<close>.  After seeding row 2 (\<open>- x1 \<ge> 0\<close>) with the out-arc candidate \<open>x1\<close>
  and an in-arc candidate whose bound distance is larger by less than the tolerance, row 0
  of the in-arc list of \<open>x1\<close> is folded in and cancels \<open>x1\<close>.  After seeding row 0 with
  an in-arc candidate \<open>x1\<close> whose bound distance is larger by 1, row 2 of the out-arc list
  of \<open>x1\<close> is folded in at once.  The row that the scan of the in-arc list of \<open>x1\<close> finds
  is in that list, with the weight that cancels the coefficient \<open>- 1\<close>.
\<close>

theorem extension_column_witness:
  "extendPath twoCol twoColArcs (seedState twoCol [kGeq, kGeq, kGeq] 2 startState)
       (Some (1, - 1, 1)) (Some (0, 1, 17 / 16)) =
     Continue \<lparr>lpAggregator = [(1, 0), (0, - 1)], cutGen = 0, randgen = 0, currPathLen = 1,
               trace = [Seeded 2 1, Extended 0 1]\<rparr> \<and>
   extendPath twoCol twoColArcs twoColSeeded (Some (0, - 1, 1)) (Some (1, 1, 2)) =
     Continue \<lparr>lpAggregator = [(0, - 1), (1, 0)], cutGen = 0, randgen = 0, currPathLen = 1,
               trace = [Seeded 0 1, Extended 2 1]\<rparr> \<and>
   inArcsOf twoColArcs 1 = [(0, 1)] \<and>
   row (scanArcRows twoCol (- 1) [(0, 1)] (startPick (0 :: nat))) = Some 0 \<and>
   (\<exists>a. (0 :: nat, a) \<in> set [(0 :: nat, 1 :: rat)] \<and> a \<noteq> 0 \<and>
        weight (scanArcRows twoCol (- 1) [(0, 1 :: rat)] (startPick (0 :: nat))) = - (- 1) / a)"
proof -
  let ?st = "seedState twoCol [kGeq, kGeq, kGeq] 2 startState"
  have t: "feastol twoCol = 1 / 10" by (simp add: twoCol_def)
  have v1: "(let p = scanArcRows twoCol (- 1) (inArcsOf twoColArcs 1) (startPick (randgen ?st))
       in case row p of
            Some r \<Rightarrow>
              Continue (?st\<lparr>lpAggregator := addRow twoCol r (weight p) (lpAggregator ?st),
                           randgen := gen p,
                           trace := trace ?st @ (flips p @ [Extended r (weight p)])\<rparr>)
          | None \<Rightarrow>
              (case Some (0 :: nat, 1 :: rat, 17 / 16 :: rat) of
                 None \<Rightarrow> Fault OutOfBounds ?st
               | Some (c, v, d) \<Rightarrow>
                   let q = scanArcRows twoCol v (outArcsOf twoColArcs c) (startPick (randgen ?st))
                   in case row q of
                        None \<Rightarrow> Break ?st
                      | Some r \<Rightarrow>
                          Continue
                            (?st\<lparr>lpAggregator := addRow twoCol r (weight q) (lpAggregator ?st),
                                randgen := gen q,
                                trace := trace ?st @ (flips q @ [Extended r (weight q)])\<rparr>))) =
     Continue \<lparr>lpAggregator = [(1, 0), (0, - 1)], cutGen = 0, randgen = 0, currPathLen = 1,
               trace = [Seeded 2 1, Extended 0 1]\<rparr>"
    by code_simp
  have v2: "(let q = scanArcRows twoCol 1 (outArcsOf twoColArcs 1) (startPick (randgen twoColSeeded))
       in case row q of
            None \<Rightarrow> Break twoColSeeded
          | Some r \<Rightarrow>
              Continue (twoColSeeded\<lparr>lpAggregator := addRow twoCol r (weight q) (lpAggregator twoColSeeded),
                           randgen := gen q,
                           trace := trace twoColSeeded @ (flips q @ [Extended r (weight q)])\<rparr>)) =
     Continue \<lparr>lpAggregator = [(0, - 1), (1, 0)], cutGen = 0, randgen = 0, currPathLen = 1,
               trace = [Seeded 0 1, Extended 2 1]\<rparr>"
    by code_simp
  have l: "inArcsOf twoColArcs 1 = [(0, 1)]" by code_simp
  have r: "row (scanArcRows twoCol (- 1) [(0, 1)] (startPick (0 :: nat))) = Some 0" by code_simp
  have a: "extendPath twoCol twoColArcs ?st (Some (1, - 1, 1)) (Some (0, 1, 17 / 16)) =
     Continue \<lparr>lpAggregator = [(1, 0), (0, - 1)], cutGen = 0, randgen = 0, currPathLen = 1,
               trace = [Seeded 2 1, Extended 0 1]\<rparr>"
    using extension_column [where E = twoCol and A = twoColArcs and st = ?st
        and bestOut = "Some (1, - 1, 1)" and bestIn = "Some (0, 1, 17 / 16)"
        and oc = 1 and ov = "- 1" and od = 1 and ic = 0 and iv = 1 and di = "17 / 16",
        THEN conjunct1] v1
    by (simp add: t)
  have b: "extendPath twoCol twoColArcs twoColSeeded (Some (0, - 1, 1)) (Some (1, 1, 2)) =
     Continue \<lparr>lpAggregator = [(0, - 1), (1, 0)], cutGen = 0, randgen = 0, currPathLen = 1,
               trace = [Seeded 0 1, Extended 2 1]\<rparr>"
    using extension_column [where E = twoCol and A = twoColArcs and st = twoColSeeded
        and bestOut = "Some (0, - 1, 1)" and bestIn = "Some (1, 1, 2)"
        and oc = 0 and ov = "- 1" and od = 1 and ic = 1 and iv = 1 and di = 2,
        THEN conjunct2, THEN conjunct1] v2
    by (simp add: t)
  have c: "\<exists>a. (0 :: nat, a) \<in> set [(0 :: nat, 1 :: rat)] \<and> a \<noteq> 0 \<and>
        weight (scanArcRows twoCol (- 1) [(0, 1 :: rat)] (startPick (0 :: nat))) = - (- 1) / a"
    using extension_column [where E = twoCol and cv = "- 1" and xs = "[(0, 1)]" and g = 0
        and r = 0, THEN conjunct2, THEN conjunct2] r
    by blast
  show ?thesis using a b c l r by blast
qed

text \<open>
  On \<open>twoCol\<close> after seeding row 0 the two candidates have the same bound distance.  The
  row folded in is row 2, which has no entry in the out-arc candidate \<open>x0\<close>: it comes from
  the out-arc list of the in-arc candidate \<open>x1\<close>, and it is the coefficient of \<open>x1\<close> that
  is cancelled.  The tie has selected the in-arc candidate.
\<close>

theorem extension_column_counterexample:
  "boundDistance twoCol 0 = boundDistance twoCol 1 \<and>
   inArcsOf twoColArcs 0 = [(1, 100)] \<and>
   outArcsOf twoColArcs 1 = [(2, - 1)] \<and>
   getRow twoCol 2 = [(1, - 1)] \<and>
   lpAggregator twoColSeeded = [(0, - 1), (1, 1)] \<and>
   extendPath twoCol twoColArcs twoColSeeded (Some (0, - 1, boundDistance twoCol 0))
       (Some (1, 1, boundDistance twoCol 1)) =
     Continue \<lparr>lpAggregator = [(0, - 1), (1, 0)], cutGen = 0, randgen = 0, currPathLen = 1,
               trace = [Seeded 0 1, Extended 2 1]\<rparr>"
  by code_simp

section \<open>Weights of extension rows\<close>

lemma extensionWeights_append:
  "extensionWeights (xs @ ys) = extensionWeights xs @ extensionWeights ys"
  by (induction xs rule: extensionWeights.induct) auto

lemma weightsInBand_append:
  "weightsInBand tol (xs @ ys) \<longleftrightarrow> weightsInBand tol xs \<and> weightsInBand tol ys"
  by (simp add: weightsInBand_def extensionWeights_append)

lemma checkWeight_band: "checkWeight tol w \<longleftrightarrow> tol \<le> \<bar>w\<bar> \<and> \<bar>w\<bar> \<le> 1 / tol"
  by (auto simp: checkWeight_def Let_def)

lemma scanArcRows_weight:
  "pickOk (feastol E) p \<Longrightarrow> pickOk (feastol E) (scanArcRows E cv xs p)"
  by (induction E cv xs p rule: scanArcRows.induct)
     (auto simp: Let_def pickOk_def split: option.splits prod.splits)

lemma scanArcRows_flips:
  "extensionWeights (flips (scanArcRows E cv xs p)) = extensionWeights (flips p)"
  by (induction E cv xs p rule: scanArcRows.induct)
     (auto simp: Let_def extensionWeights_append split: option.splits prod.splits)

lemma scanArcRows_start:
  "row (scanArcRows E cv xs (startPick g)) = Some r \<Longrightarrow>
   checkWeight (feastol E) (weight (scanArcRows E cv xs (startPick g)))"
  using scanArcRows_weight [of E "startPick g" cv xs] by (simp add: pickOk_def startPick_def)

lemma scanArcRows_start_flips:
  "extensionWeights (flips (scanArcRows E cv xs (startPick g))) = []"
  by (simp add: scanArcRows_flips startPick_def)

lemma checkOutArcCol_band:
  "weightsInBand (feastol E) (trace st) \<Longrightarrow>
   weightsInBand (feastol E) (trace (stateOf (checkOutArcCol E A st bestIn)))"
  by (auto simp: checkOutArcCol_def Let_def weightsInBand_def extensionWeights_append
        scanArcRows_start_flips checkWeight_band [symmetric] scanArcRows_start
      split: option.splits)

lemma checkInArcCol_band:
  "weightsInBand (feastol E) (trace st) \<Longrightarrow>
   weightsInBand (feastol E) (trace (stateOf (checkInArcCol E A st bestOut bestIn)))"
proof (cases bestOut)
  case None
  assume "weightsInBand (feastol E) (trace st)"
  then show ?thesis using None by (simp add: checkInArcCol_def)
next
  case (Some t)
  assume w: "weightsInBand (feastol E) (trace st)"
  obtain c v d where t: "t = (c, v, d)" by (cases t)
  let ?p = "scanArcRows E v (inArcsOf A c) (startPick (randgen st))"
  show ?thesis
  proof (cases "row ?p")
    case None
    have "weightsInBand (feastol E) (trace (st\<lparr>randgen := gen ?p, trace := trace st @ flips ?p\<rparr>))"
      using w by (simp add: weightsInBand_def extensionWeights_append scanArcRows_start_flips)
    from checkOutArcCol_band [OF this] show ?thesis
      using None Some t by (simp add: checkInArcCol_def Let_def)
  next
    case (Some r)
    from scanArcRows_start [OF Some] show ?thesis
      using Some w \<open>bestOut = Some t\<close> t
      by (simp add: checkInArcCol_def Let_def weightsInBand_def extensionWeights_append
          scanArcRows_start_flips checkWeight_band)
  qed
qed

lemma extendPath_band:
  "weightsInBand (feastol E) (trace st) \<Longrightarrow>
   weightsInBand (feastol E) (trace (stateOf (extendPath E A st bestOut bestIn)))"
  by (simp add: extendPath_def checkInArcCol_band checkOutArcCol_band)

lemma attemptCuts_weights:
  "extensionWeights (trace (snd (attemptCuts E st baseRow))) = extensionWeights (trace st)"
  by (simp add: attemptCuts_def Let_def extensionWeights_append split: prod.splits)

lemma scanBaseRow_log:
  "scanBaseRow E cs A xs s = Inr s' \<Longrightarrow>
   extensionWeights (subst_log s') = extensionWeights (subst_log s)"
  by (induction E cs A xs s rule: scanBaseRow.induct)
     (auto simp: extensionWeights_append split: option.splits if_splits)

lemma loopBody_band:
  "weightsInBand (feastol E) (trace st) \<Longrightarrow>
   weightsInBand (feastol E) (trace (stateOf (loopBody E cs A st)))"
proof -
  assume w: "weightsInBand (feastol E) (trace st)"
  show ?thesis
  proof (cases "scanBaseRow E cs A (getCurrentAggregation E (lpAggregator st) False)
                  (startScan (lpAggregator st))")
    case (Inl n)
    then show ?thesis using w by (cases n) (simp add: loopBody_def)
  next
    case (Inr s)
    from scanBaseRow_log [OF Inr] have l: "extensionWeights (subst_log s) = []"
      by (simp add: startScan_def)
    let ?st1 = "st\<lparr>lpAggregator := aggr s, trace := trace st @ subst_log s\<rparr>"
    have w1: "weightsInBand (feastol E) (trace ?st1)"
      using w l by (simp add: weightsInBand_def extensionWeights_append)
    obtain ok st2 where a: "attemptCuts E ?st1 (getCurrentAggregation E (lpAggregator st) False) = (ok, st2)"
      by (cases "attemptCuts E ?st1 (getCurrentAggregation E (lpAggregator st) False)")
    from attemptCuts_weights [of E ?st1 "getCurrentAggregation E (lpAggregator st) False"] a
    have w2: "weightsInBand (feastol E) (trace st2)"
      using w1 by (simp add: weightsInBand_def)
    then have w3: "weightsInBand (feastol E) (trace (st2\<lparr>currPathLen := currPathLen st2 + 1\<rparr>))"
      by simp
    show ?thesis
      using Inr a w1 w2 extendPath_band [OF w3]
      by (simp add: loopBody_def Let_def)
  qed
qed

lemma pathLoop_band:
  "pathLoop fuel E cs A st = Some (f, st') \<Longrightarrow> weightsInBand (feastol E) (trace st) \<Longrightarrow>
   weightsInBand (feastol E) (trace st')"
proof (induction fuel arbitrary: st)
  case 0
  then show ?case by simp
next
  case (Suc fuel)
  show ?case
  proof (cases "currPathLen st = maxPathLen")
    case True
    then show ?thesis using Suc.prems by simp
  next
    case False
    from loopBody_band [OF Suc.prems(2)]
    have b: "weightsInBand (feastol E) (trace (stateOf (loopBody E cs A st)))" .
    show ?thesis
    proof (cases "loopBody E cs A st")
      case (Continue s)
      then show ?thesis using Suc.prems(1) False b Suc.IH [of s] by simp
    next
      case (Break s)
      then show ?thesis using Suc.prems(1) False b by simp
    next
      case (Fault x s)
      then show ?thesis using Suc.prems(1) False b by simp
    next
      case (Spin s)
      then show ?thesis using Suc.prems(1) False by simp
    qed
  qed
qed

lemma seedRow_band:
  "seedRow fuel E cs rt A i st = Some (f, st') \<Longrightarrow> weightsInBand (feastol E) (trace st) \<Longrightarrow>
   weightsInBand (feastol E) (trace st')"
proof -
  assume a: "seedRow fuel E cs rt A i st = Some (f, st')"
    and w: "weightsInBand (feastol E) (trace st)"
  have w1: "weightsInBand (feastol E) (trace (seedState E rt i st))"
    using w by (simp add: seedState_def Let_def weightsInBand_def extensionWeights_append)
  show ?thesis
    using a pathLoop_band [OF _ w1, of fuel cs A]
    by (auto simp: seedRow_def split: option.splits prod.splits)
qed

lemma seedLoop_band:
  "seedLoop fuel E cs rt A is st = Some (f, st') \<Longrightarrow> weightsInBand (feastol E) (trace st) \<Longrightarrow>
   weightsInBand (feastol E) (trace st')"
proof (induction "is" arbitrary: st)
  case Nil
  then show ?case by simp
next
  case (Cons i "is")
  show ?case
  proof (cases "rt ! i = kUnusuable")
    case True
    then show ?thesis using Cons by simp
  next
    case False
    then show ?thesis
      using Cons.prems Cons.IH seedRow_band [of fuel E cs rt A i st]
      by (auto split: option.splits prod.splits)
  qed
qed

lemma separate_band:
  "separateLpSolution fuel E ag cg g = Some (f, st) \<Longrightarrow> weightsInBand (feastol E) (trace st)"
  by (auto simp: separateLpSolution_def Let_def weightsInBand_def
      split: sum.splits prod.splits dest!: seedLoop_band)

lemma scanArcRows_skip:
  "a = 0 \<or> \<not> checkWeight (feastol E) (- cv / a) \<Longrightarrow>
   scanArcRows E cv (xs @ (r, a) # ys) p = scanArcRows E cv (xs @ ys) p"
proof (induction xs arbitrary: p)
  case Nil
  then show ?case by (auto simp: ddiv_def)
next
  case (Cons x xs)
  obtain r' a' where x: "x = (r', a')" by (cases x)
  show ?case unfolding x
    by (simp add: Cons.IH [OF Cons.prems] Let_def split: option.splits prod.splits)
qed

lemma substEx_run: "separateLpSolution 12 substEx [] 0 0 = Some (None, substExFinal)"
  by code_simp

text \<open>
  C8.  In every finished run of the separator, each weight with which an extension row was
  folded into the aggregation lies in the band \<open>tolerance \<le> |weight| \<le> 1 / tolerance\<close>.
  A candidate row of an arc list whose cancelling weight is outside the band (or is not
  finite) is skipped: the scan continues as if the row were not in the list, so the other
  candidates of this step are still considered.
\<close>

theorem weight_safety:
  "(separateLpSolution fuel E ag cg g = Some (f, st) \<longrightarrow>
      list_all (\<lambda>w. feastol E \<le> \<bar>w\<bar> \<and> \<bar>w\<bar> \<le> 1 / feastol E) (extensionWeights (trace st))) \<and>
   (a = 0 \<or> \<not> (feastol E \<le> \<bar>- cv / a\<bar> \<and> \<bar>- cv / a\<bar> \<le> 1 / feastol E) \<longrightarrow>
      scanArcRows E cv (xs @ (r, a) # ys) p = scanArcRows E cv (xs @ ys) p)"
  using separate_band [of fuel E ag cg g f st] scanArcRows_skip [of a E cv xs r ys p]
  by (simp add: weightsInBand_def checkWeight_band)

theorem weight_safety_witness:
  "separateLpSolution 12 substEx [] 0 0 = Some (None, substExFinal) \<and>
   extensionWeights (trace substExFinal) = [1, 1] \<and>
   list_all (\<lambda>w. feastol substEx \<le> \<bar>w\<bar> \<and> \<bar>w\<bar> \<le> 1 / feastol substEx)
     (extensionWeights (trace substExFinal)) \<and>
   \<not> (feastol twoCol \<le> \<bar>- (- 1) / 100\<bar> \<and> \<bar>- (- 1) / 100\<bar> \<le> 1 / feastol twoCol) \<and>
   scanArcRows twoCol (- 1) ([(0, 1)] @ (1, 100) # [(2, 1 / 2)]) (startPick 0) =
     scanArcRows twoCol (- 1) ([(0, 1)] @ [(2, 1 / 2)]) (startPick 0)"
proof -
  have h: "\<not> (feastol twoCol \<le> \<bar>- (- 1) / 100\<bar> \<and> \<bar>- (- 1) / 100\<bar> \<le> 1 / feastol twoCol)"
    by (simp add: twoCol_def)
  have e: "extensionWeights (trace substExFinal) = [1, 1]"
    by (simp add: substExFinal_def)
  have "list_all (\<lambda>w. feastol substEx \<le> \<bar>w\<bar> \<and> \<bar>w\<bar> \<le> 1 / feastol substEx)
          (extensionWeights (trace substExFinal))"
    using weight_safety [where fuel = 12 and E = substEx and ag = "[]" and cg = 0 and g = 0
        and f = None and st = substExFinal] substEx_run
    by blast
  moreover have "scanArcRows twoCol (- 1) ([(0, 1)] @ (1, 100) # [(2, 1 / 2)]) (startPick 0) =
     scanArcRows twoCol (- 1) ([(0, 1)] @ [(2, 1 / 2)]) (startPick 0)"
    using weight_safety [where E = twoCol and a = 100 and cv = "- 1" and xs = "[(0, 1)]"
        and r = 1 and ys = "[(2, 1 / 2)]" and p = "startPick 0"] h
    by blast
  ultimately show ?thesis using substEx_run h e by blast
qed

section \<open>Reseeding of the random generator\<close>

lemma classifyLoop_reseed: "classifyLoop (reseed E a b) is rt = classifyLoop E is rt"
  by (induction "is" arbitrary: rt) simp_all

lemma numContinuousLoop_reseed:
  "numContinuousLoop (reseed E a b) cols nc = numContinuousLoop E cols nc"
  by (induction cols arbitrary: nc) simp_all

lemma findContinuous_reseed: "findContinuous (reseed E a b) xs = findContinuous E xs"
  by (induction xs) auto

lemma substitutionLoop_reseed:
  "substitutionLoop (reseed E a b) nc is sr = substitutionLoop E nc is sr"
proof (induction "is" arbitrary: sr)
  case Nil
  then show ?case by (cases sr) simp
next
  case (Cons i "is")
  then show ?case by (cases sr) (simp add: findContinuous_reseed split: option.splits)
qed

lemma detectSubstitutions_reseed: "detectSubstitutions (reseed E a b) = detectSubstitutions E"
  by (simp add: detectSubstitutions_def substitutionLoop_reseed numContinuousOf_def
      numContinuousLoop_reseed classifyRows_def classifyLoop_reseed)

lemma arcLoop_reseed: "arcLoop (reseed E a b) cs rt cols A = arcLoop E cs rt cols A"
  by (induction cols arbitrary: A) (simp_all add: Let_def)

lemma buildArcs_reseed: "buildArcs (reseed E a b) cs rt = buildArcs E cs rt"
  by (simp add: buildArcs_def arcLoop_reseed)

lemma addRow_reseed: "addRow (reseed E a b) r w ag = addRow E r w ag"
  by (simp add: addRow_def)

lemma getCurrentAggregation_reseed:
  "getCurrentAggregation (reseed E a b) ag n = getCurrentAggregation E ag n"
  by (simp add: getCurrentAggregation_def Let_def)

lemma scanBaseRow_reseed: "scanBaseRow (reseed E a b) cs A xs s = scanBaseRow E cs A xs s"
proof (induction xs arbitrary: s)
  case Nil
  then show ?case by simp
next
  case (Cons x xs)
  obtain c v where x: "x = (c, v)" by (cases x)
  show ?case unfolding x
    by (simp add: Cons.IH addRow_reseed split: option.splits prod.splits)
qed

lemma scanArcRows_reseed: "scanArcRows (reseed E a b) cv xs p = scanArcRows E cv xs p"
proof (induction xs arbitrary: p)
  case Nil
  then show ?case by simp
next
  case (Cons x xs)
  obtain r c where x: "x = (r, c)" by (cases x)
  show ?case unfolding x
    by (simp add: Cons.IH Let_def split: option.splits prod.splits)
qed

lemma checkOutArcCol_reseed:
  "checkOutArcCol (reseed E a b) A st bi = checkOutArcCol E A st bi"
  by (simp add: checkOutArcCol_def scanArcRows_reseed addRow_reseed Let_def split: option.splits prod.splits)

lemma checkInArcCol_reseed:
  "checkInArcCol (reseed E a b) A st bo bi = checkInArcCol E A st bo bi"
  by (simp add: checkInArcCol_def scanArcRows_reseed addRow_reseed checkOutArcCol_reseed Let_def
      split: option.splits prod.splits)

lemma extendPath_reseed: "extendPath (reseed E a b) A st bo bi = extendPath E A st bo bi"
  by (simp add: extendPath_def checkInArcCol_reseed checkOutArcCol_reseed)

lemma attemptCuts_reseed: "attemptCuts (reseed E a b) st base = attemptCuts E st base"
  by (simp add: attemptCuts_def getCurrentAggregation_reseed Let_def split: prod.splits)

lemma loopBody_reseed: "loopBody (reseed E a b) cs A st = loopBody E cs A st"
  by (auto simp add: loopBody_def getCurrentAggregation_reseed scanBaseRow_reseed
      attemptCuts_reseed extendPath_reseed Let_def split: sum.splits prod.splits)

lemma pathLoop_reseed: "pathLoop fuel (reseed E a b) cs A st = pathLoop fuel E cs A st"
  by (induction fuel arbitrary: st) (simp_all add: loopBody_reseed split: ctl.splits)

lemma seedRow_reseed: "seedRow fuel (reseed E a b) cs rt A i st = seedRow fuel E cs rt A i st"
  by (simp add: seedRow_def seedState_def pathLoop_reseed addRow_reseed Let_def)

lemma seedLoop_reseed:
  "seedLoop fuel (reseed E a b) cs rt A is st = seedLoop fuel E cs rt A is st"
  by (induction "is" arbitrary: st) (simp_all add: seedRow_reseed split: option.splits prod.splits)

text \<open>The random bits of a run are drawn one after the other from the generator state
  with which the run starts.\<close>

lemma coinFlips_append: "coinFlips (xs @ ys) = coinFlips xs @ coinFlips ys"
  by (induction xs rule: coinFlips.induct) auto

lemma drawBits_Suc:
  "drawBits E n g0 = (bs, g) \<Longrightarrow> bit E g = (b, g') \<Longrightarrow>
   drawBits E (Suc n) g0 = (bs @ [b], g')"
proof (induction n arbitrary: g0 bs)
  case 0
  then show ?case by simp
next
  case (Suc n)
  obtain b0 g1 where b0: "bit E g0 = (b0, g1)" by (cases "bit E g0")
  obtain bs1 g2 where r: "drawBits E n g1 = (bs1, g2)" by (cases "drawBits E n g1")
  from Suc.prems(1) have e: "bs = b0 # bs1" "g2 = g" by (simp_all add: b0 r)
  from r e have "drawBits E n g1 = (bs1, g)" by simp
  from Suc.IH [OF this Suc.prems(2)]
  have i: "drawBits E (Suc n) g1 = (bs1 @ [b], g')" .
  have "drawBits E (Suc (Suc n)) g0 =
          (let (b, g') = bit E g0; (bs, g'') = drawBits E (Suc n) g' in (b # bs, g''))"
    by (rule drawBits.simps(2))
  also have "\<dots> = (bs @ [b], g')" unfolding b0 Let_def prod.case i e(1) by simp
  finally show ?case .
qed

lemma drawn_flip:
  assumes "drawn E g0 tr g" and "bit E g = (b, g')"
  shows "drawn E g0 (tr @ [CoinFlip b]) g'"
proof -
  from assms(1) have "drawBits E (length (coinFlips tr)) g0 = (coinFlips tr, g)"
    by (simp add: drawn_def)
  from drawBits_Suc [OF this assms(2)] show ?thesis
    by (simp add: drawn_def coinFlips_append del: drawBits.simps)
qed

lemma drawn_quiet: "coinFlips evs = [] \<Longrightarrow> drawn E g0 (tr @ evs) g = drawn E g0 tr g"
  by (simp add: drawn_def coinFlips_append)

lemma scanArcRows_drawn:
  "drawn E g0 (tr @ flips p) (gen p) \<Longrightarrow>
   drawn E g0 (tr @ flips (scanArcRows E cv xs p)) (gen (scanArcRows E cv xs p))"
proof (induction xs arbitrary: p)
  case Nil
  then show ?case by simp
next
  case (Cons x xs)
  obtain r a where x: "x = (r, a)" by (cases x)
  have f: "drawn E g0 (tr @ flips p @ [CoinFlip b]) g'" if "bit E (gen p) = (b, g')" for b g'
    using drawn_flip [OF Cons.prems that] by simp
  show ?case unfolding x
    by (auto simp: Let_def Cons.prems f intro!: Cons.IH split: option.splits prod.splits)
qed

lemma scanArcRows_start_drawn:
  "drawn E g0 (trace st) (randgen st) \<Longrightarrow>
   drawn E g0 (trace st @ flips (scanArcRows E cv xs (startPick (randgen st))))
     (gen (scanArcRows E cv xs (startPick (randgen st))))"
  using scanArcRows_drawn [of E g0 "trace st" "startPick (randgen st)" cv xs]
  by (simp add: startPick_def)

lemma checkOutArcCol_drawn:
  "drawn E g0 (trace st) (randgen st) \<Longrightarrow>
   drawn E g0 (trace (stateOf (checkOutArcCol E A st bestIn)))
     (randgen (stateOf (checkOutArcCol E A st bestIn)))"
proof (cases bestIn)
  case None
  assume "drawn E g0 (trace st) (randgen st)"
  then show ?thesis using None by (simp add: checkOutArcCol_def)
next
  case (Some t)
  assume d: "drawn E g0 (trace st) (randgen st)"
  obtain c v bd where t: "t = (c, v, bd)" by (cases t)
  let ?p = "scanArcRows E v (outArcsOf A c) (startPick (randgen st))"
  have p: "drawn E g0 (trace st @ flips ?p) (gen ?p)"
    by (rule scanArcRows_start_drawn [OF d])
  have q: "drawn E g0 (trace st @ flips ?p @ [Extended r w]) (gen ?p)" for r w
    using drawn_quiet [of "[Extended r w]" E g0 "trace st @ flips ?p" "gen ?p"] p by simp
  show ?thesis using Some t p q
    by (simp add: checkOutArcCol_def Let_def split: option.splits)
qed

lemma checkInArcCol_drawn:
  "drawn E g0 (trace st) (randgen st) \<Longrightarrow>
   drawn E g0 (trace (stateOf (checkInArcCol E A st bestOut bestIn)))
     (randgen (stateOf (checkInArcCol E A st bestOut bestIn)))"
proof (cases bestOut)
  case None
  assume "drawn E g0 (trace st) (randgen st)"
  then show ?thesis using None by (simp add: checkInArcCol_def)
next
  case (Some t)
  assume d: "drawn E g0 (trace st) (randgen st)"
  obtain c v bd where t: "t = (c, v, bd)" by (cases t)
  let ?p = "scanArcRows E v (inArcsOf A c) (startPick (randgen st))"
  have p: "drawn E g0 (trace st @ flips ?p) (gen ?p)"
    by (rule scanArcRows_start_drawn [OF d])
  show ?thesis
  proof (cases "row ?p")
    case None
    have "drawn E g0 (trace (st\<lparr>randgen := gen ?p, trace := trace st @ flips ?p\<rparr>))
            (randgen (st\<lparr>randgen := gen ?p, trace := trace st @ flips ?p\<rparr>))"
      using p by simp
    from checkOutArcCol_drawn [OF this] show ?thesis
      using None \<open>bestOut = Some t\<close> t by (simp add: checkInArcCol_def Let_def)
  next
    case (Some r)
    have "drawn E g0 (trace st @ flips ?p @ [Extended r (weight ?p)]) (gen ?p)"
      using drawn_quiet [of "[Extended r (weight ?p)]" E g0 "trace st @ flips ?p" "gen ?p"] p
      by simp
    then show ?thesis
      using Some \<open>bestOut = Some t\<close> t by (simp add: checkInArcCol_def Let_def)
  qed
qed

lemma extendPath_drawn:
  "drawn E g0 (trace st) (randgen st) \<Longrightarrow>
   drawn E g0 (trace (stateOf (extendPath E A st bestOut bestIn)))
     (randgen (stateOf (extendPath E A st bestOut bestIn)))"
  by (simp add: extendPath_def checkInArcCol_drawn checkOutArcCol_drawn)

lemma attemptCuts_flips:
  "coinFlips (trace (snd (attemptCuts E st baseRow))) = coinFlips (trace st) \<and>
   randgen (snd (attemptCuts E st baseRow)) = randgen st"
  by (simp add: attemptCuts_def Let_def coinFlips_append split: prod.splits)

lemma scanBaseRow_flips:
  "scanBaseRow E cs A xs s = Inr s' \<Longrightarrow> coinFlips (subst_log s') = coinFlips (subst_log s)"
  by (induction E cs A xs s rule: scanBaseRow.induct)
     (auto simp: coinFlips_append split: option.splits if_splits)

lemma loopBody_drawn:
  "drawn E g0 (trace st) (randgen st) \<Longrightarrow>
   drawn E g0 (trace (stateOf (loopBody E cs A st))) (randgen (stateOf (loopBody E cs A st)))"
proof -
  assume d: "drawn E g0 (trace st) (randgen st)"
  show ?thesis
  proof (cases "scanBaseRow E cs A (getCurrentAggregation E (lpAggregator st) False)
                  (startScan (lpAggregator st))")
    case (Inl n)
    then show ?thesis using d by (cases n) (simp add: loopBody_def)
  next
    case (Inr s)
    from scanBaseRow_flips [OF Inr] have l: "coinFlips (subst_log s) = []"
      by (simp add: startScan_def)
    let ?st1 = "st\<lparr>lpAggregator := aggr s, trace := trace st @ subst_log s\<rparr>"
    have d1: "drawn E g0 (trace ?st1) (randgen ?st1)"
      using d l by (simp add: drawn_quiet)
    obtain ok st2 where a: "attemptCuts E ?st1 (getCurrentAggregation E (lpAggregator st) False) = (ok, st2)"
      by (cases "attemptCuts E ?st1 (getCurrentAggregation E (lpAggregator st) False)")
    from attemptCuts_flips [of E ?st1 "getCurrentAggregation E (lpAggregator st) False"] a
    have d2: "drawn E g0 (trace st2) (randgen st2)"
      using d1 by (simp add: drawn_def)
    then have d3: "drawn E g0 (trace (st2\<lparr>currPathLen := currPathLen st2 + 1\<rparr>))
                     (randgen (st2\<lparr>currPathLen := currPathLen st2 + 1\<rparr>))"
      by simp
    show ?thesis
      using Inr a d1 d2 extendPath_drawn [OF d3]
      by (simp add: loopBody_def Let_def)
  qed
qed

lemma pathLoop_drawn:
  "pathLoop fuel E cs A st = Some (f, st') \<Longrightarrow> drawn E g0 (trace st) (randgen st) \<Longrightarrow>
   drawn E g0 (trace st') (randgen st')"
proof (induction fuel arbitrary: st)
  case 0
  then show ?case by simp
next
  case (Suc fuel)
  show ?case
  proof (cases "currPathLen st = maxPathLen")
    case True
    then show ?thesis using Suc.prems by simp
  next
    case False
    from loopBody_drawn [OF Suc.prems(2)]
    have b: "drawn E g0 (trace (stateOf (loopBody E cs A st)))
               (randgen (stateOf (loopBody E cs A st)))" .
    show ?thesis
    proof (cases "loopBody E cs A st")
      case (Continue s)
      then show ?thesis using Suc.prems(1) False b Suc.IH [of s] by simp
    next
      case (Break s)
      then show ?thesis using Suc.prems(1) False b by simp
    next
      case (Fault x s)
      then show ?thesis using Suc.prems(1) False b by simp
    next
      case (Spin s)
      then show ?thesis using Suc.prems(1) False by simp
    qed
  qed
qed

lemma seedRow_drawn:
  "seedRow fuel E cs rt A i st = Some (f, st') \<Longrightarrow> drawn E g0 (trace st) (randgen st) \<Longrightarrow>
   drawn E g0 (trace st') (randgen st')"
proof -
  assume a: "seedRow fuel E cs rt A i st = Some (f, st')"
    and d: "drawn E g0 (trace st) (randgen st)"
  have d1: "drawn E g0 (trace (seedState E rt i st)) (randgen (seedState E rt i st))"
    using d by (simp add: seedState_def Let_def drawn_quiet)
  show ?thesis
    using a pathLoop_drawn [OF _ d1, of fuel cs A]
    by (auto simp: seedRow_def split: option.splits prod.splits)
qed

lemma seedLoop_drawn:
  "seedLoop fuel E cs rt A is st = Some (f, st') \<Longrightarrow> drawn E g0 (trace st) (randgen st) \<Longrightarrow>
   drawn E g0 (trace st') (randgen st')"
proof (induction "is" arbitrary: st)
  case Nil
  then show ?case by simp
next
  case (Cons i "is")
  show ?case
  proof (cases "rt ! i = kUnusuable")
    case True
    then show ?thesis using Cons by simp
  next
    case False
    then show ?thesis
      using Cons.prems Cons.IH seedRow_drawn [of fuel E cs rt A i st]
      by (auto split: option.splits prod.splits)
  qed
qed

lemma separate_drawn:
  "separateLpSolution fuel E ag cg g = Some (f, st) \<Longrightarrow>
   drawn E (initialise E (random_seed E + numLpIterations E)) (trace st) (randgen st)"
proof -
  assume a: "separateLpSolution fuel E ag cg g = Some (f, st)"
  let ?g0 = "initialise E (random_seed E + numLpIterations E)"
  let ?st0 = "\<lparr>lpAggregator = ag, cutGen = cg, randgen = ?g0, currPathLen = 0, trace = []\<rparr>"
  have d0: "drawn E ?g0 (trace ?st0) (randgen ?st0)" by (simp add: drawn_def)
  show ?thesis
  proof (cases "detectSubstitutions E")
    case (Inl x)
    then show ?thesis using a d0 by (simp add: separateLpSolution_def Let_def)
  next
    case (Inr cr)
    obtain cs rt where cr: "cr = (cs, rt)" by (cases cr)
    from a Inr cr have "seedLoop fuel E cs rt (buildArcs E cs rt) [0 ..< num_row (lp E)] ?st0
                          = Some (f, st)"
      by (simp add: separateLpSolution_def Let_def)
    from seedLoop_drawn [OF this d0] show ?thesis .
  qed
qed

text \<open>
  C9.  The separator overwrites the generator state it finds with
  \<open>initialise (random_seed + numLpIterations)\<close> before anything else.  Its result (the
  fault, the final cut generator state and the whole trace of folded rows, cut attempts
  and random bits) does not depend on the state the generator was in, and it depends on
  the configured seed and the iteration count only through their sum.  The random bits of
  a finished run are, in the order in which they were drawn, the first bits that \<open>bit\<close>
  returns from the state \<open>initialise (random_seed + numLpIterations)\<close>, and the generator
  is left in the state after these draws.
\<close>

theorem reseeded:
  "separateLpSolution fuel E ag cg g = separateLpSolution fuel E ag cg g' \<and>
   separateLpSolution fuel
     (E\<lparr>random_seed := s, numLpIterations := random_seed E + numLpIterations E - s\<rparr>) ag cg g =
   separateLpSolution fuel E ag cg g \<and>
   (separateLpSolution fuel E ag cg g = Some (f, st) \<longrightarrow>
      drawBits E (length (coinFlips (trace st)))
          (initialise E (random_seed E + numLpIterations E)) =
        (coinFlips (trace st), randgen st))"
proof (intro conjI impI)
  show "separateLpSolution fuel E ag cg g = separateLpSolution fuel E ag cg g'"
    by (simp add: separateLpSolution_def)
  show "separateLpSolution fuel
     (E\<lparr>random_seed := s, numLpIterations := random_seed E + numLpIterations E - s\<rparr>) ag cg g =
   separateLpSolution fuel E ag cg g"
    by (simp add: separateLpSolution_def detectSubstitutions_reseed buildArcs_reseed
        seedLoop_reseed Let_def split: sum.splits prod.splits)
  assume "separateLpSolution fuel E ag cg g = Some (f, st)"
  from separate_drawn [OF this]
  show "drawBits E (length (coinFlips (trace st)))
          (initialise E (random_seed E + numLpIterations E)) =
        (coinFlips (trace st), randgen st)"
    by (simp add: drawn_def)
qed

lemma tieEx_run: "separateLpSolution 12 tieEx [] 0 5 = Some (None, tieFinal)"
  by code_simp


text \<open>
  On \<open>tieEx\<close>, configured with seed 3 after 4 iterations, the run draws two bits: they
  are the first two bits of the generator started from 7, whatever state (here 5) the
  generator was in.  Configured with seed 0 after 4 iterations the run draws other bits.
\<close>

theorem reseeded_witness:
  "separateLpSolution 12 tieEx [] 0 5 = Some (None, tieFinal) \<and>
   random_seed tieEx + numLpIterations tieEx = 7 \<and>
   coinFlips (trace tieFinal) = [False, True] \<and>
   drawBits tieEx 2 (initialise tieEx 7) = ([False, True], randgen tieFinal) \<and>
   map_option (\<lambda>x. coinFlips (trace (snd x)))
     (separateLpSolution 12 (tieEx\<lparr>random_seed := 0\<rparr>) [] 0 5) = Some [True, False]"
proof -
  have s: "random_seed tieEx + numLpIterations tieEx = 7" by (simp add: tieEx_def)
  have c: "coinFlips (trace tieFinal) = [False, True]" by (simp add: tieFinal_def)
  have o: "map_option (\<lambda>x. coinFlips (trace (snd x)))
     (separateLpSolution 12 (tieEx\<lparr>random_seed := 0\<rparr>) [] 0 5) = Some [True, False]"
    by code_simp
  have "drawBits tieEx (length (coinFlips (trace tieFinal)))
          (initialise tieEx (random_seed tieEx + numLpIterations tieEx)) =
        (coinFlips (trace tieFinal), randgen tieFinal)"
    using reseeded [where fuel = 12 and E = tieEx and ag = "[]" and cg = 0 and g = 5
        and f = None and st = tieFinal, THEN conjunct2, THEN conjunct2] tieEx_run
    by blast
  moreover have "length (coinFlips (trace tieFinal)) = 2" by (simp add: c)
  ultimately have "drawBits tieEx 2 (initialise tieEx 7) = ([False, True], randgen tieFinal)"
    unfolding s c by (rule back_subst)
  then show ?thesis using tieEx_run s c o by blast
qed

section \<open>Adjacency construction: proofs\<close>

lemma arcEntryLoop_eq:
  "arcEntryLoop L rt is (ins, outs) =
     (ins @ filter (toInArcs rt) (map (\<lambda>i. (a_index L ! i, a_value L ! i)) is),
      outs @ filter (toOutArcs rt) (map (\<lambda>i. (a_index L ! i, a_value L ! i)) is))"
proof (induction "is" arbitrary: ins outs)
  case Nil
  then show ?case by simp
next
  case (Cons i "is")
  show ?case
  proof (cases "rt ! (a_index L ! i)")
    case kUnusuable
    then show ?thesis by (simp add: Cons.IH toInArcs_def toOutArcs_def)
  next
    case kGeq
    then show ?thesis by (simp add: Cons.IH toInArcs_def toOutArcs_def)
  next
    case kEq
    then show ?thesis by (simp add: Cons.IH toInArcs_def toOutArcs_def)
  next
    case kLeq
    then show ?thesis by (simp add: Cons.IH toInArcs_def toOutArcs_def)
  qed
qed

lemma arcRange_appended: "arcRange (xs @ ys) (length xs, length xs + length ys) = ys"
proof (rule nth_equalityI)
  show "length (arcRange (xs @ ys) (length xs, length xs + length ys)) = length ys"
    by (simp add: arcRange_def)
next
  fix i
  assume "i < length (arcRange (xs @ ys) (length xs, length xs + length ys))"
  then have "i < length ys" by (simp add: arcRange_def)
  then show "arcRange (xs @ ys) (length xs, length xs + length ys) ! i = ys ! i"
    by (simp add: arcRange_def)
qed

lemma arcRange_prefix: "snd r \<le> length xs \<Longrightarrow> arcRange (xs @ ys) r = arcRange xs r"
  by (auto simp: arcRange_def nth_append)

lemma arcLoop_lengths:
  "length (colInArcs (arcLoop E cs rt cols A)) = length (colInArcs A) \<and>
   length (colOutArcs (arcLoop E cs rt cols A)) = length (colOutArcs A)"
  by (induction cols arbitrary: A) (auto simp: Let_def)

lemma arcLoop_done:
  "col < length (colInArcs A) \<Longrightarrow> col < length (colOutArcs A) \<Longrightarrow>
   arcsDone (lp E) rt A col \<or>
     (col \<in> set cols \<and> boundDistance E col \<noteq> 0 \<and> cs ! col = None) \<Longrightarrow>
   arcsDone (lp E) rt (arcLoop E cs rt cols A) col"
proof (induction cols arbitrary: A)
  case Nil
  then show ?case by simp
next
  case (Cons c cols)
  show ?case
  proof (cases "boundDistance E c = 0 \<or> cs ! c \<noteq> None")
    case True
    then have "arcLoop E cs rt (c # cols) A = arcLoop E cs rt cols A" by auto
    moreover have "arcsDone (lp E) rt A col \<or>
      (col \<in> set cols \<and> boundDistance E col \<noteq> 0 \<and> cs ! col = None)"
      using Cons.prems(3) True by auto
    ultimately show ?thesis using Cons.IH [OF Cons.prems(1,2)] by simp
  next
    case False
    let ?fi = "filter (toInArcs rt) (colEntries (lp E) c)"
    let ?fo = "filter (toOutArcs rt) (colEntries (lp E) c)"
    let ?A = "\<lparr>inArcRows = inArcRows A @ ?fi,
               colInArcs = (colInArcs A)[c := (length (inArcRows A), length (inArcRows A) + length ?fi)],
               outArcRows = outArcRows A @ ?fo,
               colOutArcs = (colOutArcs A)[c := (length (outArcRows A), length (outArcRows A) + length ?fo)]\<rparr>"
    have step: "arcLoop E cs rt (c # cols) A = arcLoop E cs rt cols ?A"
      using False by (simp add: Let_def arcEntryLoop_eq colEntries_def)
    have d: "arcsDone (lp E) rt ?A col \<or>
      (col \<in> set cols \<and> boundDistance E col \<noteq> 0 \<and> cs ! col = None)"
    proof (cases "col = c")
      case True
      then show ?thesis
        using Cons.prems(1,2)
        by (simp add: arcsDone_def inArcsOf_def outArcsOf_def arcRange_appended)
    next
      case False
      with Cons.prems(3) \<open>\<not> (boundDistance E c = 0 \<or> cs ! c \<noteq> None)\<close>
      consider "arcsDone (lp E) rt A col"
        | "col \<in> set cols \<and> boundDistance E col \<noteq> 0 \<and> cs ! col = None" by auto
      then show ?thesis
      proof cases
        case 1
        then show ?thesis using False
          by (simp add: arcsDone_def inArcsOf_def outArcsOf_def arcRange_prefix)
      next
        case 2
        then show ?thesis by simp
      qed
    qed
    have l: "col < length (colInArcs ?A)" "col < length (colOutArcs ?A)"
      using Cons.prems(1,2) by simp_all
    show ?thesis unfolding step by (rule Cons.IH [OF l d])
  qed
qed

lemma buildArcs_done:
  "col \<in> set (continuous_cols E) \<Longrightarrow> col < num_col (lp E) \<Longrightarrow> boundDistance E col \<noteq> 0 \<Longrightarrow>
   cs ! col = None \<Longrightarrow> arcsDone (lp E) rt (buildArcs E cs rt) col"
  unfolding buildArcs_def by (rule arcLoop_done) simp_all

lemma arc_sign:
  "k \<noteq> kUnusuable \<Longrightarrow> a \<noteq> 0 \<Longrightarrow> rt ! r = k \<Longrightarrow>
   (toInArcs rt (r, a) \<longleftrightarrow> inArcSpec k a) \<and> (toOutArcs rt (r, a) \<longleftrightarrow> outArcSpec k a) \<and>
   (inArcSpec k a \<longleftrightarrow> \<not> outArcSpec k a)"
  by (cases k) (auto simp: toInArcs_def toOutArcs_def inArcSpec_def outArcSpec_def)

text \<open>
  C6.  Let \<open>col\<close> be a continuous column with nonzero bound distance and no recorded
  substitution, whose entries have pairwise different row indices, and let \<open>(r, a)\<close> be
  one of its entries with a usable row \<open>r\<close> and \<open>a \<noteq> 0\<close>.  After adjacency construction
  the entry is in the in-arc range of the column exactly when the sign convention makes it
  an in-arc (negative in a \<open>LessOrEqual\<close> row, positive in a \<open>GreaterOrEqual\<close> or
  \<open>Equality\<close> row), in the out-arc range exactly when the convention makes it an out-arc,
  and the row occurs in exactly one of the two ranges.
\<close>

theorem arc_partition:
  assumes "col \<in> set (continuous_cols E)" and "col < num_col (lp E)"
    and "boundDistance E col \<noteq> 0" and "cs ! col = None"
    and "distinct (map fst (colEntries (lp E) col))"
    and "(r, a) \<in> set (colEntries (lp E) col)" and "rt ! r \<noteq> kUnusuable" and "a \<noteq> 0"
  shows "((r, a) \<in> set (inArcsOf (buildArcs E cs rt) col) \<longleftrightarrow> inArcSpec (rt ! r) a) \<and>
         ((r, a) \<in> set (outArcsOf (buildArcs E cs rt) col) \<longleftrightarrow> outArcSpec (rt ! r) a) \<and>
         (r \<in> fst ` set (inArcsOf (buildArcs E cs rt) col)) \<noteq>
         (r \<in> fst ` set (outArcsOf (buildArcs E cs rt) col))"
proof -
  let ?A = "buildArcs E cs rt"
  from buildArcs_done [OF assms(1-4)]
  have i: "inArcsOf ?A col = filter (toInArcs rt) (colEntries (lp E) col)"
    and o: "outArcsOf ?A col = filter (toOutArcs rt) (colEntries (lp E) col)"
    by (simp_all add: arcsDone_def)
  from arc_sign [OF assms(7,8) refl]
  have s: "toInArcs rt (r, a) \<longleftrightarrow> inArcSpec (rt ! r) a"
    "toOutArcs rt (r, a) \<longleftrightarrow> outArcSpec (rt ! r) a"
    "inArcSpec (rt ! r) a \<longleftrightarrow> \<not> outArcSpec (rt ! r) a" by blast+
  have u: "a' = a" if "(r, a') \<in> set (colEntries (lp E) col)" for a'
    using assms(5,6) that by (meson eq_key_imp_eq_value)
  have 1: "(r, a) \<in> set (inArcsOf ?A col) \<longleftrightarrow> inArcSpec (rt ! r) a"
    using i assms(6) s by simp
  have 2: "(r, a) \<in> set (outArcsOf ?A col) \<longleftrightarrow> outArcSpec (rt ! r) a"
    using o assms(6) s by simp
  have 3: "r \<in> fst ` set (inArcsOf ?A col) \<longleftrightarrow> (r, a) \<in> set (inArcsOf ?A col)"
  proof
    assume "r \<in> fst ` set (inArcsOf ?A col)"
    then obtain a' where m: "(r, a') \<in> set (inArcsOf ?A col)" by auto
    then have "(r, a') \<in> set (colEntries (lp E) col)" unfolding i by simp
    from u [OF this] m show "(r, a) \<in> set (inArcsOf ?A col)" by simp
  next
    assume "(r, a) \<in> set (inArcsOf ?A col)"
    then show "r \<in> fst ` set (inArcsOf ?A col)" by (rule image_eqI [rotated]) simp
  qed
  have 4: "r \<in> fst ` set (outArcsOf ?A col) \<longleftrightarrow> (r, a) \<in> set (outArcsOf ?A col)"
  proof
    assume "r \<in> fst ` set (outArcsOf ?A col)"
    then obtain a' where m: "(r, a') \<in> set (outArcsOf ?A col)" by auto
    then have "(r, a') \<in> set (colEntries (lp E) col)" unfolding o by simp
    from u [OF this] m show "(r, a) \<in> set (outArcsOf ?A col)" by simp
  next
    assume "(r, a) \<in> set (outArcsOf ?A col)"
    then show "r \<in> fst ` set (outArcsOf ?A col)" by (rule image_eqI [rotated]) simp
  qed
  show ?thesis using 1 2 3 4 s(3) by blast
qed

theorem arc_partition_witness:
  "2 \<in> set (continuous_cols substEx) \<and>
   colEntries (lp substEx) 2 = [(1, 1), (3, - 1)] \<and>
   inArcsOf (buildArcs substEx [Some (0, 2), None, None] [kUnusuable, kGeq, kEq, kGeq]) 2
     = [(1, 1)] \<and>
   outArcsOf (buildArcs substEx [Some (0, 2), None, None] [kUnusuable, kGeq, kEq, kGeq]) 2
     = [(3, - 1)] \<and>
   ((1, 1) \<in> set (inArcsOf (buildArcs substEx [Some (0, 2), None, None]
                              [kUnusuable, kGeq, kEq, kGeq]) 2)) = inArcSpec kGeq 1 \<and>
   ((1, 1) \<in> set (outArcsOf (buildArcs substEx [Some (0, 2), None, None]
                               [kUnusuable, kGeq, kEq, kGeq]) 2)) = outArcSpec kGeq 1 \<and>
   (1 \<in> fst ` set (inArcsOf (buildArcs substEx [Some (0, 2), None, None]
                              [kUnusuable, kGeq, kEq, kGeq]) 2)) \<noteq>
   (1 \<in> fst ` set (outArcsOf (buildArcs substEx [Some (0, 2), None, None]
                               [kUnusuable, kGeq, kEq, kGeq]) 2))"
proof -
  let ?cs = "[Some (0, 2), None, None] :: (nat \<times> rat) option list"
  let ?rt = "[kUnusuable, kGeq, kEq, kGeq]"
  have h1: "2 \<in> set (continuous_cols substEx)" by (simp add: substEx_def)
  have h2: "2 < num_col (lp substEx)" by (simp add: substEx_def substLp_def)
  have h3: "boundDistance substEx 2 \<noteq> 0" by (simp add: substEx_def)
  have h4: "?cs ! 2 = None" by simp
  have e: "colEntries (lp substEx) 2 = [(1, 1), (3, - 1)]" by code_simp
  have h5: "distinct (map fst (colEntries (lp substEx) 2))" unfolding e by simp
  have h6: "(1, 1) \<in> set (colEntries (lp substEx) 2)" unfolding e by simp
  have h7: "?rt ! 1 \<noteq> kUnusuable" by simp
  have h8: "(1 :: rat) \<noteq> 0" by simp
  have i: "inArcsOf (buildArcs substEx ?cs ?rt) 2 = [(1, 1)]" by code_simp
  have o: "outArcsOf (buildArcs substEx ?cs ?rt) 2 = [(3, - 1)]" by code_simp
  have k: "?rt ! 1 = kGeq" by simp
  from arc_partition [OF h1 h2 h3 h4 h5 h6 h7 h8]
  show ?thesis unfolding k using h1 e i o by blast
qed

section \<open>Substitution detection: proofs\<close>

lemma findContinuous_filter:
  "findContinuous E xs = (case filter (eligibleEntry E) xs of [] \<Rightarrow> None | e # _ \<Rightarrow> Some e)"
  by (induction E xs rule: findContinuous.induct) (simp_all add: eligibleEntry_def)

text \<open>
  The counting loop (lines 70--76) leaves in \<open>numContinuous[i]\<close> the number of entries of
  row \<open>i\<close> in continuous columns with nonzero bound distance: every such column adds the
  number of its entries in row \<open>i\<close>, which is the number of entries of row \<open>i\<close> in that
  column, and each entry of the row is counted with the one column it belongs to.
\<close>

lemma countLoop_nth:
  "i < length nc \<Longrightarrow>
   countLoop L ks nc ! i = nc ! i + length (filter (\<lambda>k. a_index L ! k = i) ks)"
  by (induction ks arbitrary: nc) (auto simp: nth_list_update)

lemma countLoop_length: "length (countLoop L ks nc) = length nc"
  by (induction ks arbitrary: nc) simp_all

lemma colEntries_count:
  "length (filter (\<lambda>e. fst e = i) (colEntries L c)) =
   length (filter (\<lambda>k. a_index L ! k = i) (colRange L c))"
  by (simp add: colEntries_def filter_map o_def)

lemma numContinuousLoop_nth:
  "i < length nc \<Longrightarrow>
   numContinuousLoop E cols nc ! i =
     nc ! i + sum_list (map (\<lambda>c. if boundDistance E c = 0 then 0
                               else length (filter (\<lambda>e. fst e = i) (colEntries (lp E) c))) cols)"
  by (induction cols arbitrary: nc)
     (simp_all add: countLoop_nth countLoop_length colEntries_count)

lemma getRow_by_column:
  "distinct cols \<Longrightarrow>
   sum_list (map (\<lambda>c. if boundDistance E c = 0 then 0
                      else length (filter (\<lambda>e. fst e = c) (getRow E i))) cols) =
   length (filter (\<lambda>e. fst e \<in> set cols \<and> boundDistance E (fst e) \<noteq> 0) (getRow E i))"
proof (induction cols)
  case Nil
  then show ?case by simp
next
  case (Cons c cols)
  then have n: "c \<notin> set cols" and d: "distinct cols" by simp_all
  have "length (filter (\<lambda>e. fst e \<in> set (c # cols) \<and> boundDistance E (fst e) \<noteq> 0) xs) =
        (if boundDistance E c = 0 then 0 else length (filter (\<lambda>e. fst e = c) xs)) +
        length (filter (\<lambda>e. fst e \<in> set cols \<and> boundDistance E (fst e) \<noteq> 0) xs)"
    for xs :: "(nat \<times> rat) list"
    using n by (induction xs) auto
  then show ?case using Cons.IH [OF d] by simp
qed

lemma numContinuous_count:
  assumes "consistent E" and "i < num_row (lp E)"
  shows "numContinuousOf E ! i = length (filter (eligibleEntry E) (getRow E i))"
proof -
  from assms(1) have d: "distinct (continuous_cols E)"
    and b: "\<And>c. c \<in> set (continuous_cols E) \<Longrightarrow> c < num_col (lp E)"
    and k: "\<And>c. c < num_col (lp E) \<Longrightarrow>
              (c \<in> set (continuous_cols E)) = (variableType E c = kContinuous)"
    by (simp_all add: consistent_def list_all_iff)
  from assms have r: "\<And>e. e \<in> set (getRow E i) \<Longrightarrow> fst e < num_col (lp E)"
    and m: "\<And>c. c < num_col (lp E) \<Longrightarrow>
              map snd (filter (\<lambda>e. fst e = i) (colEntries (lp E) c)) =
              map snd (filter (\<lambda>e. fst e = c) (getRow E i))"
    by (simp_all add: consistent_def list_all_iff)
  have l: "length (filter (\<lambda>e. fst e = i) (colEntries (lp E) c)) =
           length (filter (\<lambda>e. fst e = c) (getRow E i))"
    if "c \<in> set (continuous_cols E)" for c
    using arg_cong [OF m [OF b [OF that]], of length] by simp
  have "numContinuousOf E ! i =
        sum_list (map (\<lambda>c. if boundDistance E c = 0 then 0
                           else length (filter (\<lambda>e. fst e = i) (colEntries (lp E) c)))
                    (continuous_cols E))"
    using assms(2) by (simp add: numContinuousOf_def numContinuousLoop_nth)
  also have "\<dots> =
        sum_list (map (\<lambda>c. if boundDistance E c = 0 then 0
                           else length (filter (\<lambda>e. fst e = c) (getRow E i)))
                    (continuous_cols E))"
    by (rule arg_cong [where f = sum_list], rule map_cong) (simp_all add: l)
  also have "\<dots> = length (filter (\<lambda>e. fst e \<in> set (continuous_cols E)
                                    \<and> boundDistance E (fst e) \<noteq> 0) (getRow E i))"
    by (rule getRow_by_column [OF d])
  also have "filter (\<lambda>e. fst e \<in> set (continuous_cols E) \<and> boundDistance E (fst e) \<noteq> 0)
               (getRow E i) = filter (eligibleEntry E) (getRow E i)"
    by (rule filter_cong) (simp_all add: eligibleEntry_def k r)
  finally show ?thesis .
qed

lemma consistent_row:
  assumes "consistent E" and "i < num_row (lp E)" and "e \<in> set (getRow E i)"
  shows "fst e < num_col (lp E)"
  using assms by (simp add: consistent_def list_all_iff)

text \<open>What a row with exactly one eligible entry looks like.\<close>

lemma single_eligible:
  assumes "consistent E" and "i < num_row (lp E)" and "numContinuousOf E ! i = 1"
  obtains c v where "filter (eligibleEntry E) (getRow E i) = [(c, v)]"
    and "findContinuous E (getRow E i) = Some (c, v)" and "c < num_col (lp E)"
    and "pivotOf E i = v"
proof -
  from numContinuous_count [OF assms(1,2)] assms(3)
  have "length (filter (eligibleEntry E) (getRow E i)) = 1" by simp
  then obtain e where f: "filter (eligibleEntry E) (getRow E i) = [e]"
    by (cases "filter (eligibleEntry E) (getRow E i)") auto
  obtain c v where e: "e = (c, v)" by (cases e)
  have "e \<in> set (filter (eligibleEntry E) (getRow E i))" unfolding f by simp
  then have "e \<in> set (getRow E i)" by simp
  from consistent_row [OF assms(1,2) this] have "c < num_col (lp E)"
    by (simp add: e)
  moreover have "findContinuous E (getRow E i) = Some (c, v)"
    by (simp add: findContinuous_filter f e)
  moreover have "pivotOf E i = v" by (simp add: pivotOf_def f e)
  ultimately show ?thesis using that f e by blast
qed

lemma qualifies_count:
  assumes "consistent E" and "i < num_row (lp E)" and "qualifies E c i"
  shows "classifyRows E ! i = kEq \<and> numContinuousOf E ! i = 1"
proof -
  from assms(3) have "length (map fst (filter (eligibleEntry E) (getRow E i))) = 1"
    by (simp add: qualifies_def)
  then show ?thesis
    using numContinuous_count [OF assms(1,2)] assms(3) by (simp add: qualifies_def)
qed

lemma firstQualifying_Cons:
  "firstQualifying E c (i # is) =
     (if qualifies E c i then Some (i, pivotOf E i) else firstQualifying E c is)"
  by (simp add: firstQualifying_def)

lemma firstQualifying_mem: "firstQualifying E c is = Some (j, v) \<Longrightarrow> j \<in> set is"
proof -
  assume a: "firstQualifying E c is = Some (j, v)"
  then obtain rest where "filter (qualifies E c) is = j # rest"
    by (auto simp: firstQualifying_def split: list.splits)
  then have "j \<in> set (filter (qualifies E c) is)" by simp
  then show ?thesis by simp
qed

lemma substResult_skip:
  assumes r: "substResult E is cs rt cs' rt'"
    and nq: "\<And>c. c < num_col (lp E) \<Longrightarrow> cs ! c = None \<Longrightarrow> \<not> qualifies E c i"
  shows "substResult E (i # is) cs rt cs' rt'"
  using r nq unfolding substResult_def firstQualifying_Cons
  by (auto split: option.splits)

lemma substResult_record:
  assumes r: "substResult E is (cs[c := Some (i, v)]) (rt[i := kUnusuable]) cs' rt'"
    and c: "c < num_col (lp E)" "length cs = num_col (lp E)" "cs ! c = None"
    and i: "i < length rt" "i \<notin> set is"
    and q: "qualifies E c i" "pivotOf E i = v"
    and nq: "\<And>c'. c' \<noteq> c \<Longrightarrow> \<not> qualifies E c' i"
  shows "substResult E (i # is) cs rt cs' rt'"
proof -
  let ?cs2 = "cs[c := Some (i, v)]"
  let ?rt2 = "rt[i := kUnusuable]"
  from r have len: "length cs' = length cs" "length rt' = length rt"
    and cs': "\<And>c'. c' < num_col (lp E) \<Longrightarrow>
        cs' ! c' = (case ?cs2 ! c' of Some x \<Rightarrow> Some x | None \<Rightarrow> firstQualifying E c' is)"
    and rt': "\<And>j. j < length rt \<Longrightarrow>
        rt' ! j = (if \<exists>c' < num_col (lp E). \<exists>v'. ?cs2 ! c' = None \<and> cs' ! c' = Some (j, v')
                   then kUnusuable else ?rt2 ! j)"
    by (simp_all add: substResult_def)
  have csc: "cs' ! c = Some (i, v)" using cs' [OF c(1)] c by simp
  have a: "cs' ! c' = (case cs ! c' of Some x \<Rightarrow> Some x | None \<Rightarrow> firstQualifying E c' (i # is))"
    if "c' < num_col (lp E)" for c'
  proof (cases "c' = c")
    case True
    then show ?thesis using csc c q by (simp add: firstQualifying_Cons)
  next
    case False
    then show ?thesis using cs' [OF that] nq [OF False]
      by (simp add: firstQualifying_Cons split: option.splits)
  qed
  have b: "rt' ! j = (if \<exists>c' < num_col (lp E). \<exists>v'. cs ! c' = None \<and> cs' ! c' = Some (j, v')
                      then kUnusuable else rt ! j)"
    if j: "j < length rt" for j
  proof -
    define P2 where "P2 \<longleftrightarrow> (\<exists>c' < num_col (lp E). \<exists>v'. ?cs2 ! c' = None \<and> cs' ! c' = Some (j, v'))"
    define P where "P \<longleftrightarrow> (\<exists>c' < num_col (lp E). \<exists>v'. cs ! c' = None \<and> cs' ! c' = Some (j, v'))"
    have r2: "rt' ! j = (if P2 then kUnusuable else ?rt2 ! j)"
      unfolding P2_def by (rule rt' [OF j])
    have "rt' ! j = (if P then kUnusuable else rt ! j)"
    proof (cases "j = i")
      case True
      have "\<not> P2"
      proof
        assume P2
        then obtain c' v' where x: "c' < num_col (lp E)" "?cs2 ! c' = None" "cs' ! c' = Some (i, v')"
          unfolding P2_def True by blast
        from cs' [OF x(1)] x(2,3) have "firstQualifying E c' is = Some (i, v')" by simp
        from firstQualifying_mem [OF this] i(2) show False by simp
      qed
      with r2 True i(1) have "rt' ! j = kUnusuable" by simp
      moreover have P unfolding P_def using c csc True by blast
      ultimately show ?thesis by simp
    next
      case False
      have "P2 \<longleftrightarrow> P"
      proof
        assume P2
        then obtain c' v' where x: "c' < num_col (lp E)" "?cs2 ! c' = None" "cs' ! c' = Some (j, v')"
          unfolding P2_def by blast
        from x(2) c have "c' \<noteq> c" by auto
        with x(2) have "cs ! c' = None" by simp
        with x show P unfolding P_def by blast
      next
        assume P
        then obtain c' v' where x: "c' < num_col (lp E)" "cs ! c' = None" "cs' ! c' = Some (j, v')"
          unfolding P_def by blast
        from x(3) csc False have "c' \<noteq> c" by auto
        with x(2) have "?cs2 ! c' = None" by simp
        with x show P2 unfolding P2_def by blast
      qed
      with r2 False show ?thesis by simp
    qed
    then show ?thesis unfolding P_def .
  qed
  show ?thesis unfolding substResult_def using len a b by blast
qed

lemma substitutionLoop_spec:
  assumes "consistent E"
  shows "distinct is \<Longrightarrow>
    (\<forall>i \<in> set is. i < num_row (lp E) \<and> i < length rt \<and> rt ! i = classifyRows E ! i) \<Longrightarrow>
    length cs = num_col (lp E) \<Longrightarrow>
    \<exists>cs' rt'. substitutionLoop E (numContinuousOf E) is (cs, rt) = Inr (cs', rt') \<and>
              substResult E is cs rt cs' rt'"
proof (induction "is" arbitrary: cs rt)
  case Nil
  then show ?case by (auto simp: substResult_def firstQualifying_def split: option.splits)
next
  case (Cons i "is")
  from Cons.prems have d: "distinct is" "i \<notin> set is"
    and i: "i < num_row (lp E)" "i < length rt" "rt ! i = classifyRows E ! i"
    and rest: "\<forall>i' \<in> set is. i' < num_row (lp E) \<and> i' < length rt \<and> rt ! i' = classifyRows E ! i'"
    by auto
  show ?case
  proof (cases "rt ! i = kEq \<and> numContinuousOf E ! i = 1")
    case False
    from Cons.IH [OF d(1) rest Cons.prems(3)] obtain cs' rt'
      where l: "substitutionLoop E (numContinuousOf E) is (cs, rt) = Inr (cs', rt')"
        and r: "substResult E is cs rt cs' rt'" by blast
    have nq: "\<not> qualifies E c i" for c
      using qualifies_count [OF assms i(1), of c] False i(3) by auto
    have "substResult E (i # is) cs rt cs' rt'"
      by (rule substResult_skip [OF r]) (rule nq)
    then show ?thesis using False l by auto
  next
    case True
    then obtain c v where f: "filter (eligibleEntry E) (getRow E i) = [(c, v)]"
      and fc: "findContinuous E (getRow E i) = Some (c, v)" and c: "c < num_col (lp E)"
      and p: "pivotOf E i = v"
      using single_eligible [OF assms i(1)] by metis
    have q: "qualifies E c i" using True i(3) f by (simp add: qualifies_def)
    have nq: "\<not> qualifies E c' i" if "c' \<noteq> c" for c'
      using that f by (simp add: qualifies_def)
    show ?thesis
    proof (cases "cs ! c")
      case (Some x)
      from Cons.IH [OF d(1) rest Cons.prems(3)] obtain cs' rt'
        where l: "substitutionLoop E (numContinuousOf E) is (cs, rt) = Inr (cs', rt')"
          and r: "substResult E is cs rt cs' rt'" by blast
      have "substResult E (i # is) cs rt cs' rt'"
      proof (rule substResult_skip [OF r])
        fix c' assume "c' < num_col (lp E)" "cs ! c' = None"
        with Some have "c' \<noteq> c" by auto
        then show "\<not> qualifies E c' i" by (rule nq)
      qed
      then show ?thesis using True fc c Some l by auto
    next
      case None
      let ?cs2 = "cs[c := Some (i, v)]"
      let ?rt2 = "rt[i := kUnusuable]"
      have rest2: "\<forall>i' \<in> set is. i' < num_row (lp E) \<and> i' < length ?rt2 \<and>
                     ?rt2 ! i' = classifyRows E ! i'"
      proof (intro ballI)
        fix i' assume m: "i' \<in> set is"
        with d(2) have "i' \<noteq> i" by auto
        with rest m show "i' < num_row (lp E) \<and> i' < length ?rt2 \<and>
                     ?rt2 ! i' = classifyRows E ! i'" by simp
      qed
      have len2: "length ?cs2 = num_col (lp E)" using Cons.prems(3) by simp
      from Cons.IH [OF d(1) rest2 len2] obtain cs' rt'
        where l: "substitutionLoop E (numContinuousOf E) is (?cs2, ?rt2) = Inr (cs', rt')"
          and r: "substResult E is ?cs2 ?rt2 cs' rt'" by blast
      have "substResult E (i # is) cs rt cs' rt'"
        by (rule substResult_record [OF r c Cons.prems(3) None i(2) d(2) q p]) (rule nq)
      then show ?thesis using True fc c None l by auto
    qed
  qed
qed

lemma detectSubstitutions_result:
  assumes "consistent E"
  shows "\<exists>cs rt. detectSubstitutions E = Inr (cs, rt) \<and>
           substResult E [0 ..< num_row (lp E)] (replicate (num_col (lp E)) None)
             (classifyRows E) cs rt"
  unfolding detectSubstitutions_def
  by (rule substitutionLoop_spec [OF assms]) (simp_all add: classifyRows_length)

lemma demotedSpec_iff:
  "demotedSpec E i \<longleftrightarrow> (\<exists>c < num_col (lp E). \<exists>v. substitutionSpec E c = Some (i, v))"
proof -
  have p: "(case x of None \<Rightarrow> False | Some (r, v) \<Rightarrow> r = i) \<longleftrightarrow> (\<exists>v. x = Some (i, v))"
    for x :: "(nat \<times> rat) option"
    by (cases x) auto
  show ?thesis unfolding demotedSpec_def list_ex_iff p by auto
qed

text \<open>
  C5.  Let \<open>getRow\<close> be the row-wise view of the column-wise matrix and let
  \<open>continuous_cols\<close> list the continuous columns.  Substitution detection then succeeds,
  and the substitution it records for a column is the first row, in row-index order, that
  is an \<open>Equality\<close> row whose only continuous entry with nonzero bound distance is this
  column, together with the coefficient of the column in that row; a column without such
  a row has no substitution.  Later qualifying rows leave no trace: exactly the recorded
  rows are reclassified \<open>Unusable\<close>, every other row keeps its kind.  The result is this
  function of the input, so detection on the same input gives the same substitution map.
\<close>

theorem substitution_first_row:
  assumes "consistent E"
  shows "detectSubstitutions E =
     Inr (map (substitutionSpec E) [0 ..< num_col (lp E)],
          map (rowtypeSpec E) [0 ..< num_row (lp E)])"
proof -
  from detectSubstitutions_result [OF assms] obtain cs rt
    where d: "detectSubstitutions E = Inr (cs, rt)"
      and r: "substResult E [0 ..< num_row (lp E)] (replicate (num_col (lp E)) None)
                (classifyRows E) cs rt" by blast
  from r have lc: "length cs = num_col (lp E)" and lr: "length rt = num_row (lp E)"
    by (simp_all add: substResult_def classifyRows_length)
  note r' = r [unfolded substResult_def]
  note c0 = r' [THEN conjunct2, THEN conjunct2, THEN conjunct1]
  note t0 = r' [THEN conjunct2, THEN conjunct2, THEN conjunct2]
  have c: "cs ! c = substitutionSpec E c" if "c < num_col (lp E)" for c
    using c0 that by (simp add: substitutionSpec_def)
  have 1: "cs = map (substitutionSpec E) [0 ..< num_col (lp E)]"
    by (rule nth_equalityI) (simp_all add: lc c)
  have 2: "rt = map (rowtypeSpec E) [0 ..< num_row (lp E)]"
  proof (rule nth_equalityI)
    show "length rt = length (map (rowtypeSpec E) [0 ..< num_row (lp E)])" by (simp add: lr)
  next
    fix j assume "j < length rt"
    then have j: "j < num_row (lp E)" by (simp add: lr)
    define P where "P \<longleftrightarrow> (\<exists>c < num_col (lp E). \<exists>v.
        replicate (num_col (lp E)) (None :: (nat \<times> rat) option) ! c = None \<and> cs ! c = Some (j, v))"
    have "P \<longleftrightarrow> (\<exists>c < num_col (lp E). \<exists>v. substitutionSpec E c = Some (j, v))"
      unfolding P_def using c by auto
    then have pd: "P \<longleftrightarrow> demotedSpec E j" by (simp add: demotedSpec_iff)
    have jl: "j < length (classifyRows E)" using j by (simp add: classifyRows_length)
    have "rt ! j = (if P then kUnusuable else classifyRows E ! j)"
      unfolding P_def using t0 jl by blast
    then show "rt ! j = map (rowtypeSpec E) [0 ..< num_row (lp E)] ! j"
      using j pd by (simp add: rowtypeSpec_def)
  qed
  show ?thesis using d 1 2 by simp
qed

theorem substitution_first_row_witness:
  "consistent substEx \<and>
   detectSubstitutions substEx =
     Inr (map (substitutionSpec substEx) [0 ..< num_col (lp substEx)],
          map (rowtypeSpec substEx) [0 ..< num_row (lp substEx)]) \<and>
   map (substitutionSpec substEx) [0 ..< num_col (lp substEx)] = [Some (0, 2), None, None] \<and>
   map (rowtypeSpec substEx) [0 ..< num_row (lp substEx)] = [kUnusuable, kGeq, kEq, kGeq] \<and>
   qualifies substEx 0 0 \<and> qualifies substEx 0 2"
proof -
  have h: "consistent substEx" by code_simp
  have a: "map (substitutionSpec substEx) [0 ..< num_col (lp substEx)] = [Some (0, 2), None, None]"
    by code_simp
  have b: "map (rowtypeSpec substEx) [0 ..< num_row (lp substEx)] = [kUnusuable, kGeq, kEq, kGeq]"
    by code_simp
  have q: "qualifies substEx 0 0" "qualifies substEx 0 2" by code_simp+
  from substitution_first_row [OF h] show ?thesis using h a b q by blast
qed

section \<open>The loop of a seed row\<close>

lemma foldedRows_append: "foldedRows (xs @ ys) = foldedRows xs + foldedRows ys"
  by (induction xs rule: foldedRows.induct) auto

lemma scanArcRows_folded:
  "foldedRows (flips (scanArcRows E cv xs p)) = foldedRows (flips p)"
  by (induction E cv xs p rule: scanArcRows.induct)
     (auto simp: Let_def foldedRows_append split: option.splits prod.splits)

lemma scanArcRows_start_folded:
  "foldedRows (flips (scanArcRows E cv xs (startPick g))) = 0"
  by (simp add: scanArcRows_folded startPick_def)

lemma checkOutArcCol_folded:
  "foldedRows (trace (stateOf (checkOutArcCol E A st bestIn))) \<le> foldedRows (trace st) + 1 \<and>
   currPathLen (stateOf (checkOutArcCol E A st bestIn)) = currPathLen st"
  by (simp add: checkOutArcCol_def Let_def foldedRows_append scanArcRows_start_folded
      split: option.splits prod.splits)

lemma checkInArcCol_folded:
  "foldedRows (trace (stateOf (checkInArcCol E A st bestOut bestIn))) \<le> foldedRows (trace st) + 1 \<and>
   currPathLen (stateOf (checkInArcCol E A st bestOut bestIn)) = currPathLen st"
proof (cases bestOut)
  case None
  then show ?thesis by (simp add: checkInArcCol_def)
next
  case (Some t)
  obtain c v bd where t: "t = (c, v, bd)" by (cases t)
  let ?p = "scanArcRows E v (inArcsOf A c) (startPick (randgen st))"
  show ?thesis
  proof (cases "row ?p")
    case None
    from checkOutArcCol_folded [of E A "st\<lparr>randgen := gen ?p, trace := trace st @ flips ?p\<rparr>" bestIn]
    show ?thesis using None Some t
      by (simp add: checkInArcCol_def Let_def foldedRows_append scanArcRows_start_folded)
  next
    case (Some r)
    then show ?thesis using \<open>bestOut = Some t\<close> t
      by (simp add: checkInArcCol_def Let_def foldedRows_append scanArcRows_start_folded)
  qed
qed

lemma extendPath_folded:
  "foldedRows (trace (stateOf (extendPath E A st bestOut bestIn))) \<le> foldedRows (trace st) + 1 \<and>
   currPathLen (stateOf (extendPath E A st bestOut bestIn)) = currPathLen st"
  using checkInArcCol_folded [of E A st bestOut bestIn] checkOutArcCol_folded [of E A st bestIn]
  by (simp add: extendPath_def)

lemma attemptCuts_folded:
  "foldedRows (trace (snd (attemptCuts E st baseRow))) = foldedRows (trace st) \<and>
   currPathLen (snd (attemptCuts E st baseRow)) = currPathLen st"
  by (simp add: attemptCuts_def Let_def foldedRows_append split: prod.splits)

lemma scanBaseRow_folded:
  "scanBaseRow E cs A xs s = Inr s' \<Longrightarrow> foldedRows (subst_log s') = foldedRows (subst_log s)"
  by (induction E cs A xs s rule: scanBaseRow.induct)
     (auto simp: foldedRows_append split: option.splits if_splits)

text \<open>A round of the path loop folds a row only if it counts it.\<close>

lemma loopBody_folded:
  "currPathLen st \<le> currPathLen (stateOf (loopBody E cs A st)) \<and>
   currPathLen (stateOf (loopBody E cs A st)) \<le> currPathLen st + 1 \<and>
   foldedRows (trace (stateOf (loopBody E cs A st))) + currPathLen st \<le>
     foldedRows (trace st) + currPathLen (stateOf (loopBody E cs A st))"
proof (cases "scanBaseRow E cs A (getCurrentAggregation E (lpAggregator st) False)
                (startScan (lpAggregator st))")
  case (Inl n)
  then show ?thesis by (cases n) (simp add: loopBody_def)
next
  case (Inr s)
  from scanBaseRow_folded [OF Inr] have l: "foldedRows (subst_log s) = 0"
    by (simp add: startScan_def)
  let ?st1 = "st\<lparr>lpAggregator := aggr s, trace := trace st @ subst_log s\<rparr>"
  obtain ok st2 where a: "attemptCuts E ?st1 (getCurrentAggregation E (lpAggregator st) False) = (ok, st2)"
    by (cases "attemptCuts E ?st1 (getCurrentAggregation E (lpAggregator st) False)")
  from attemptCuts_folded [of E ?st1 "getCurrentAggregation E (lpAggregator st) False"] a l
  have f2: "foldedRows (trace st2) = foldedRows (trace st)" "currPathLen st2 = currPathLen st"
    by (simp_all add: foldedRows_append)
  from extendPath_folded [of E A "st2\<lparr>currPathLen := currPathLen st2 + 1\<rparr>" "bestOutArc s" "bestInArc s"]
  have e: "foldedRows (trace (stateOf (extendPath E A (st2\<lparr>currPathLen := currPathLen st2 + 1\<rparr>)
                (bestOutArc s) (bestInArc s)))) \<le> foldedRows (trace st) + 1"
    "currPathLen (stateOf (extendPath E A (st2\<lparr>currPathLen := currPathLen st2 + 1\<rparr>)
                (bestOutArc s) (bestInArc s))) = currPathLen st + 1"
    by (simp_all add: f2)
  show ?thesis
    using Inr a l f2 e by (simp add: loopBody_def Let_def foldedRows_append)
qed

lemma pathLoop_folded:
  "pathLoop fuel E cs A st = Some (f, st') \<Longrightarrow> currPathLen st \<le> maxPathLen \<Longrightarrow>
   currPathLen st' \<le> maxPathLen \<and>
   foldedRows (trace st') + currPathLen st \<le> foldedRows (trace st) + currPathLen st'"
proof (induction fuel arbitrary: st)
  case 0
  then show ?case by simp
next
  case (Suc fuel)
  show ?case
  proof (cases "currPathLen st = maxPathLen")
    case True
    then show ?thesis using Suc.prems by simp
  next
    case False
    let ?s = "stateOf (loopBody E cs A st)"
    from loopBody_folded [of st E cs A]
    have b: "currPathLen st \<le> currPathLen ?s" "currPathLen ?s \<le> currPathLen st + 1"
      "foldedRows (trace ?s) + currPathLen st \<le> foldedRows (trace st) + currPathLen ?s"
      by simp_all
    have m: "currPathLen ?s \<le> maxPathLen" using b(2) False Suc.prems(2) by simp
    show ?thesis
    proof (cases "loopBody E cs A st")
      case (Continue s)
      with Suc.prems(1) False have "pathLoop fuel E cs A s = Some (f, st')" by simp
      from Suc.IH [OF this] m Continue
      have "currPathLen st' \<le> maxPathLen"
        "foldedRows (trace st') + currPathLen s \<le> foldedRows (trace s) + currPathLen st'"
        by simp_all
      then show ?thesis using b Continue by simp
    next
      case (Break s)
      then show ?thesis using Suc.prems(1) False b m by auto
    next
      case (Fault x s)
      then show ?thesis using Suc.prems(1) False b m by auto
    next
      case (Spin s)
      then show ?thesis using Suc.prems(1) False by simp
    qed
  qed
qed

text \<open>
  The bound on the path length: a loop of a seed row that has finished, in whatever way,
  has folded at most \<open>maxPathLen\<close> rows, the seed row included and substitution rows not
  counted.
\<close>

lemma seedRow_folded:
  assumes "seedRow fuel E cs rt A i st = Some (f, st')"
  shows "foldedRows (trace st') \<le> foldedRows (trace st) + maxPathLen"
proof -
  let ?s0 = "seedState E rt i st"
  have s0: "currPathLen ?s0 = 1" "foldedRows (trace ?s0) = foldedRows (trace st) + 1"
    by (simp_all add: seedState_def Let_def foldedRows_append)
  have m: "currPathLen ?s0 \<le> maxPathLen" by (simp add: s0 maxPathLen_def)
  from assms obtain s1 where p: "pathLoop fuel E cs A ?s0 = Some (f, s1)"
    and t: "trace st' = trace s1"
    by (auto simp: seedRow_def split: option.splits prod.splits)
  from pathLoop_folded [OF p m] s0 t show ?thesis by simp
qed




text \<open>
  A substitution with pivot zero.  In \<open>zeroEx\<close> row 0 is recorded as the substitution of
  \<open>x0\<close> with the stored coefficient 0.  The loop of seed row 1 folds row 0 with an infinite
  weight in every round and has not finished whatever the number of rounds.
\<close>

lemma zeroEx_detect:
  "detectSubstitutions zeroEx = Inr ([Some (0, 0), None], [kUnusuable, kGeq])"
  by code_simp

lemma zeroEx_round:
  "loopBody zeroEx [Some (0, 0), None] (buildArcs zeroEx [Some (0, 0), None] [kUnusuable, kGeq])
     (seedState zeroEx [kUnusuable, kGeq] 1 startState) =
   Spin (seedState zeroEx [kUnusuable, kGeq] 1 startState)"
  by code_simp

lemma zeroEx_len: "currPathLen (seedState zeroEx [kUnusuable, kGeq] 1 startState) \<noteq> maxPathLen"
  by code_simp

lemma zero_pivot_spins: "separateLpSolution fuel zeroEx [] 0 0 = None"
proof -
  have "pathLoop fuel zeroEx [Some (0, 0), None]
          (buildArcs zeroEx [Some (0, 0), None] [kUnusuable, kGeq])
          (seedState zeroEx [kUnusuable, kGeq] 1 startState) = None"
  proof (cases fuel)
    case 0
    then show ?thesis by simp
  next
    case (Suc n)
    show ?thesis unfolding Suc pathLoop.simps(2) zeroEx_round using zeroEx_len by simp
  qed
  then have r: "seedRow fuel zeroEx [Some (0, 0), None] [kUnusuable, kGeq]
          (buildArcs zeroEx [Some (0, 0), None] [kUnusuable, kGeq]) 1 startState = None"
    by (simp add: seedRow_def)
  have n: "num_row (lp zeroEx) = 2" by (simp add: zeroEx_def zeroLp_def)
  have s: "\<lparr>lpAggregator = [], cutGen = 0,
            randgen = initialise zeroEx (random_seed zeroEx + numLpIterations zeroEx),
            currPathLen = 0, trace = []\<rparr> = startState"
    by (simp add: startState_def zeroEx_def)
  show ?thesis
    unfolding separateLpSolution_def Let_def s zeroEx_detect n
    using r by (simp add: upt_rec)
qed

end
